theory Spec2Isabelle
  imports
    Main
    "HOL-Library.AList"
    "HOL-Library.Char_ord"
    "HOL-Library.List_Lexorder"
    "HOL-Library.Product_Lexorder"
    "HOL-Library.Multiset"
begin

unbundle bit_operations_syntax

section \<open>Strings, paths and the platform\<close>

text \<open>
  Go strings are byte sequences: a \<^typ>\<open>string\<close> here is the list of its bytes, and the
  order \<open><\<close> on strings (lexicographic, by byte value) is Go's \<open><\<close> on strings.
  A file-system path is the list of its components (\<open>filepath.Join\<close> appends a
  component); a digest is used as one component, as the store does with well-formed
  digests.
\<close>

type_synonym path = "string list"

definition LF :: char where "LF = CHR 0x0A"
definition CR :: char where "CR = CHR 0x0D"
definition SP :: char where "SP = CHR '' ''"

text \<open>
  The result of opening a gzip stream over some bytes (\<open>gzip.NewReader\<close> followed by
  reads): the header is rejected, or the reader delivers \<open>data\<close> and then either ends
  cleanly or fails (\<open>body_error\<close>, a corrupt or truncated body).
\<close>

datatype gz_stream = GzHeaderError | GzStream (gz_data: string) (body_error: bool)

text \<open>
  The library functions the program calls and that are not part of the repository are
  parameters of the model: MD5 rendered as hex (\<open>crypto/md5\<close> with \<open>%x\<close>), the gzip
  codec, \<open>path.Match\<close>, \<open>time.ParseInLocation\<close> on the layout \<open>060102-150405\<close> (the
  instant as a number, or nothing when the name does not parse), the process umask and
  the size \<open>os.Stat\<close> reports for a directory.
\<close>

record platform =
  md5hex :: "string \<Rightarrow> string"
  gzip :: "string \<Rightarrow> string"
  gunzip :: "string \<Rightarrow> gz_stream"
  pathMatch :: "string \<Rightarrow> string \<Rightarrow> bool"
  parseTime :: "string \<Rightarrow> int option"
  umask :: nat
  dirSize :: nat

datatype os_error =
    ErrNotExist | ErrNotDir | ErrIsDir | ErrNotEmpty | ErrPermission | ErrSymlink

datatype error =
    OsError os_error
  | InvalidHash
  | GzipError
  | ScannerError
  | SnapshotFileEmpty
  | TimeParseError
  | OutOfFuel

section \<open>Line scanning (\<open>bufio.Scanner\<close> with \<open>ScanLines\<close>)\<close>

definition MaxScanTokenSize :: nat where "MaxScanTokenSize = 65536"

definition dropCR :: "string \<Rightarrow> string" where
  "dropCR s = (if s \<noteq> [] \<and> last s = CR then butlast s else s)"

text \<open>
  \<open>ScanLines cur data\<close>: the lines of \<open>data\<close>, \<open>cur\<close> being the bytes of the current
  line read so far. A line ends at a line feed; one trailing carriage return is dropped;
  a last line without line feed is delivered when it is not empty. The flag is
  \<open>bufio.ErrTooLong\<close>: the scanner stops at a line that does not fit its buffer.
\<close>

fun ScanLines :: "string \<Rightarrow> string \<Rightarrow> string list \<times> bool" where
  "ScanLines cur [] =
     (if cur = [] then ([], False)
      else if MaxScanTokenSize \<le> length cur then ([], True)
      else ([dropCR cur], False))"
| "ScanLines cur (c # cs) =
     (if c = LF then
        (if MaxScanTokenSize \<le> length cur then ([], True)
         else (case ScanLines [] cs of (ls, e) \<Rightarrow> (dropCR cur # ls, e)))
      else ScanLines (cur @ [c]) cs)"

text \<open>
  What a loop \<open>for scanner.Scan() { ... }\<close> over a gzip stream sees: the lines, and
  whether \<open>scanner.Err()\<close> is set afterwards (a line too long, or a read error of the
  stream: the scanner still delivers what was read before the error).
\<close>

definition scanner_lines :: "string \<Rightarrow> bool \<Rightarrow> string list \<times> bool" where
  "scanner_lines gdata berr = (case ScanLines [] gdata of (ls, e) \<Rightarrow> (ls, e \<or> berr))"

section \<open>The blob store: \<open>Store.DataStore\<close>\<close>

record Backup =
  Top :: path
  StoreData :: path
  StoreSnapshots :: path
  ProjectName :: string
  DryRun :: bool

text \<open>
  \<open>DataStore\<close> returns the empty string (here the empty path) for a hash shorter
  than two bytes, and \<open><StoreData>/<hash[:2]>/<hash>.gz\<close> otherwise.
\<close>

definition DataStore :: "Backup \<Rightarrow> string \<Rightarrow> path" where
  "DataStore b hash =
     (if length hash < 2 then []
      else StoreData b @ [take 2 hash, hash @ ''.gz''])"

section \<open>The snapshot reader: \<open>BackupDirectory.Entries\<close>\<close>

datatype BackupEntry =
    BackupFile (be_hash: string) (be_name: string)
  | BackupLink (be_hash: string) (be_name: string)
  | BackupDirectory (be_hash: string) (be_name: string)

datatype warning = InvalidDirectoryEntry string | UnknownEntryType char

text \<open>
  One iteration of the loop of \<open>Entries\<close> over the lines of a directory blob, and the
  loop. The Go map \<open>d.entries\<close> is an association list with one pair per key; the
  warnings are what the loop prints to standard error, in order.
\<close>

definition entries_step ::
  "string \<Rightarrow> (string \<times> BackupEntry) list \<times> warning list
     \<Rightarrow> (string \<times> BackupEntry) list \<times> warning list" where
  "entries_step line acc =
     (case acc of (m, ws) \<Rightarrow>
      if length line < 36 \<or> line ! 1 \<noteq> SP \<or> line ! 34 \<noteq> SP
      then (m, ws @ [InvalidDirectoryEntry line])
      else
        (let typeChar = line ! 0; hash = take 32 (drop 2 line); name = drop 35 line in
         if typeChar = CHR ''D'' then (AList.update name (BackupDirectory hash name) m, ws)
         else if typeChar = CHR ''F'' then (AList.update name (BackupFile hash name) m, ws)
         else if typeChar = CHR ''L'' then (AList.update name (BackupLink hash name) m, ws)
         else (m, ws @ [UnknownEntryType typeChar])))"

definition entries_loop ::
  "string list \<Rightarrow> (string \<times> BackupEntry) list \<times> warning list
     \<Rightarrow> (string \<times> BackupEntry) list \<times> warning list" where
  "entries_loop ls acc = fold entries_step ls acc"

text \<open>
  The lines of the reachability and of the integrity traversal
  (\<open>traverseReachable\<close>, \<open>traverseDirectory\<close>): a line shorter than 36 bytes is passed
  over; otherwise byte 0 is the type and bytes 2 to 33 are the child's digest.
\<close>

definition traverse_line :: "string \<Rightarrow> (char \<times> string) option" where
  "traverse_line line =
     (if length line < 36 then None else Some (line ! 0, take 32 (drop 2 line)))"

section \<open>The file system of the store\<close>

text \<open>
  The part of the file system the store operations touch is a finite map from paths to
  nodes, kept as an association list (the first pair of a path counts). A regular file
  has its bytes and its permission bits. The empty path stands for Go's empty string,
  on which every operation fails with \<open>ErrNotExist\<close>. Resolving a symbolic link to
  its target is outside the model: an operation that would follow one fails with
  \<open>ErrSymlink\<close>.
\<close>

datatype fnode = RegFile (bytes: string) (perm: nat) | DirNode | LinkNode (link_target: string)

type_synonym filesys = "(path \<times> fnode) list"

definition os_Lstat :: "filesys \<Rightarrow> path \<Rightarrow> os_error + fnode" where
  "os_Lstat fs p =
     (if p = [] then Inl ErrNotExist
      else case map_of fs p of None \<Rightarrow> Inl ErrNotExist | Some n \<Rightarrow> Inr n)"

definition os_Stat :: "filesys \<Rightarrow> path \<Rightarrow> os_error + fnode" where
  "os_Stat fs p =
     (case os_Lstat fs p of
        Inl e \<Rightarrow> Inl e
      | Inr (LinkNode t) \<Rightarrow> Inl ErrSymlink
      | Inr n \<Rightarrow> Inr n)"

text \<open>\<open>os.Open\<close> succeeds on a directory as well; reading from it fails later.\<close>

definition os_Open :: "filesys \<Rightarrow> path \<Rightarrow> os_error + fnode" where
  "os_Open fs p = os_Stat fs p"

definition gzip_NewReader :: "platform \<Rightarrow> fnode \<Rightarrow> gz_stream" where
  "gzip_NewReader L f = (case f of RegFile bs m \<Rightarrow> gunzip L bs | _ \<Rightarrow> GzHeaderError)"


text \<open>The entry a line of a listing stands for, by its type byte.\<close>

definition entry_of_tag :: "char \<Rightarrow> string \<Rightarrow> string \<Rightarrow> BackupEntry option" where
  "entry_of_tag t h n =
     (if t = CHR ''D'' then Some (BackupDirectory h n)
      else if t = CHR ''F'' then Some (BackupFile h n)
      else if t = CHR ''L'' then Some (BackupLink h n)
      else None)"


text \<open>A small platform on which the statements below are exercised.\<close>

definition toy_md5 :: "string \<Rightarrow> string" where
  "toy_md5 s = take 32 (s @ replicate 32 (CHR ''0''))"

definition toy_gunzip :: "string \<Rightarrow> gz_stream" where
  "toy_gunzip bs = (if take 2 bs = ''GZ'' then GzStream (drop 2 bs) False else GzHeaderError)"

definition toy_parseTime :: "string \<Rightarrow> int option" where
  "toy_parseTime s = (if length s = 13 \<and> s ! 6 = CHR ''-'' then Some 0 else None)"

definition toy :: platform where
  "toy = \<lparr> md5hex = toy_md5, gzip = (\<lambda>s. ''GZ'' @ s), gunzip = toy_gunzip,
           pathMatch = (\<lambda>p n. p = n), parseTime = toy_parseTime, umask = 18,
           dirSize = 4096 \<rparr>"

text \<open>The store and the source of the examples.\<close>

definition ex_backup :: Backup where
  "ex_backup = \<lparr> Top = [''src''], StoreData = [''st'', ''data''],
                  StoreSnapshots = [''st'', ''snapshots''], ProjectName = ''proj'',
                  DryRun = False \<rparr>"

section \<open>The ignore evaluator\<close>

record Pattern =
  raw :: string
  pattern :: string
  isNegation :: bool
  isDirOnly :: bool
  isRooted :: bool
  Source :: string

datatype IgnoreMatcher =
  IgnoreMatcher (patterns: "Pattern list") (parent: "IgnoreMatcher option") (dir: path)

text \<open>
  \<open>filepath.Rel\<close> on two clean absolute paths: the common prefix is dropped, each
  remaining component of the base becomes \<open>..\<close>, and the empty result is \<open>.\<close>. On
  such paths it returns no error. \<open>filepath.ToSlash\<close> of the result joins the
  components with a slash, \<open>filepath.Base\<close> is its last component.
\<close>

fun strip_common :: "path \<Rightarrow> path \<Rightarrow> path \<times> path" where
  "strip_common (a # as) (b # bs) =
     (if a = b then strip_common as bs else (a # as, b # bs))"
| "strip_common as bs = (as, bs)"

definition filepath_Rel :: "path \<Rightarrow> path \<Rightarrow> path" where
  "filepath_Rel base targ =
     (case strip_common base targ of
        (bs, ts) \<Rightarrow>
          (let r = replicate (length bs) ''..'' @ ts in if r = [] then [''.''] else r))"

fun ToSlash :: "path \<Rightarrow> string" where
  "ToSlash [] = []"
| "ToSlash [c] = c"
| "ToSlash (c # d # cs) = c @ ''/'' @ ToSlash (d # cs)"

definition Base :: "path \<Rightarrow> string" where
  "Base p = (if p = [] then ''.'' else last p)"

definition globMatch :: "platform \<Rightarrow> string \<Rightarrow> string \<Rightarrow> bool" where
  "globMatch L pat name = pathMatch L pat name"

text \<open>
  The loop of \<open>Match\<close> over the patterns, from the last to the first:
  \<open>match_loop L ps relPath isDir (i + 1)\<close> looks at \<open>ps ! i\<close> and goes on with \<open>i\<close>;
  nothing is returned when the loop ends without a match.
\<close>

fun match_loop ::
  "platform \<Rightarrow> Pattern list \<Rightarrow> path \<Rightarrow> bool \<Rightarrow> nat \<Rightarrow> (bool \<times> Pattern option) option" where
  "match_loop L ps relPath isDir 0 = None"
| "match_loop L ps relPath isDir (Suc i) =
     (let p = ps ! i in
      if isDirOnly p \<and> \<not> isDir then match_loop L ps relPath isDir i
      else
        (let match =
           (if isRooted p then globMatch L (pattern p) (ToSlash relPath)
            else if CHR ''/'' \<in> set (pattern p) then globMatch L (pattern p) (ToSlash relPath)
            else globMatch L (pattern p) (Base relPath))
         in
         if match then (if isNegation p then Some (False, Some p) else Some (True, Some p))
         else match_loop L ps relPath isDir i))"

fun Match :: "platform \<Rightarrow> IgnoreMatcher \<Rightarrow> path \<Rightarrow> bool \<Rightarrow> bool \<times> Pattern option" where
  "Match L (IgnoreMatcher ps par d) fullPath isDir =
     (case match_loop L ps (filepath_Rel d fullPath) isDir (length ps) of
        Some r \<Rightarrow> r
      | None \<Rightarrow>
          (case par of
             Some m \<Rightarrow> Match L m fullPath isDir
           | None \<Rightarrow> (False, None)))"

text \<open>
  \<open>pattern_hits L p relPath isDir\<close>: the pattern \<open>p\<close> matches the candidate, in the words
  of the pattern syntax: a directory-only pattern matches directories only; an anchored
  pattern and a pattern with a slash are matched against the relative path, any other
  pattern against the base name.
\<close>

definition pattern_hits :: "platform \<Rightarrow> Pattern \<Rightarrow> path \<Rightarrow> bool \<Rightarrow> bool" where
  "pattern_hits L p relPath isDir =
     ((isDir \<or> \<not> isDirOnly p) \<and>
      pathMatch L (pattern p)
        (if isRooted p \<or> CHR ''/'' \<in> set (pattern p) then ToSlash relPath else Base relPath))"

text \<open>
  \<open>loadFile\<close>: the patterns of the lines of an ignore file. \<open>strings.TrimSpace\<close> is
  modelled on the ASCII white space.
\<close>

definition is_space :: "char \<Rightarrow> bool" where
  "is_space c = (c = CHR 0x09 \<or> c = LF \<or> c = CHR 0x0B \<or> c = CHR 0x0C \<or> c = CR \<or> c = SP)"

definition TrimSpace :: "string \<Rightarrow> string" where
  "TrimSpace s = rev (dropWhile is_space (rev (dropWhile is_space s)))"

definition loadFile_step :: "string \<Rightarrow> string \<Rightarrow> Pattern list \<Rightarrow> Pattern list" where
  "loadFile_step filename text ps =
     (let line = TrimSpace text in
      if line = [] \<or> take 1 line = ''#'' then ps
      else
        (let neg = (take 1 line = ''!'');
             line1 = (if neg then drop 1 line else line);
             dirOnly = (line1 \<noteq> [] \<and> last line1 = CHR ''/'');
             line2 = (if dirOnly then butlast line1 else line1);
             rooted = (take 1 line2 = ''/'');
             line3 = (if rooted then drop 1 line2 else line2)
         in ps @ [\<lparr> raw = line, pattern = line3, isNegation = neg, isDirOnly = dirOnly,
                     isRooted = rooted, Source = filename \<rparr>]))"

section \<open>The source tree\<close>

text \<open>
  The source below \<open>Top\<close>, as the backup reads it: a regular file with its bytes, a
  symbolic link with its target, a directory with its children by name, in the order
  in which \<open>os.ReadDir\<close> returns them (sorted by file name). A directory that is not
  \<open>readable\<close> is one on which \<open>os.ReadDir\<close> fails. Other kinds of files (devices,
  sockets) are outside the model.
\<close>

datatype node =
    File (file_bytes: string)
  | Symlink (link: string)
  | Dir (readable: bool) (children: "(string \<times> node) list")

definition ReadDir :: "node \<Rightarrow> os_error + (string \<times> node) list" where
  "ReadDir n =
     (case n of
        Dir r cs \<Rightarrow> (if r then Inr cs else Inl ErrPermission)
      | File bs \<Rightarrow> Inl ErrNotDir
      | Symlink t \<Rightarrow> Inl ErrSymlink)"

definition IsDir :: "node \<Rightarrow> bool" where
  "IsDir n = (case n of Dir r cs \<Rightarrow> True | _ \<Rightarrow> False)"

definition IsSymlink :: "node \<Rightarrow> bool" where
  "IsSymlink n = (case n of Symlink t \<Rightarrow> True | _ \<Rightarrow> False)"

definition Readlink :: "node \<Rightarrow> os_error + string" where
  "Readlink n = (case n of Symlink t \<Rightarrow> Inr t | _ \<Rightarrow> Inl ErrNotExist)"

text \<open>
  \<open>LoadIgnoreFiles\<close> reads \<open>.gitignore\<close> and then \<open>.backupignore\<close> of the directory;
  a file that \<open>os.Stat\<close> does not find is passed over, and an error of \<open>loadFile\<close>
  ends the loading (its caller ignores the error and keeps the patterns read so far).
\<close>

definition loadFile :: "node \<Rightarrow> string \<Rightarrow> Pattern list \<Rightarrow> Pattern list \<times> bool" where
  "loadFile f filename ps =
     (case f of
        File bs \<Rightarrow>
          (case scanner_lines bs False of
             (ls, serr) \<Rightarrow> (fold (loadFile_step filename) ls ps, \<not> serr))
      | _ \<Rightarrow> (ps, False))"

fun LoadIgnoreFiles_loop :: "node \<Rightarrow> string list \<Rightarrow> Pattern list \<Rightarrow> Pattern list" where
  "LoadIgnoreFiles_loop d [] ps = ps"
| "LoadIgnoreFiles_loop d (f # fs) ps =
     (case map_of (children d) f of
        None \<Rightarrow> LoadIgnoreFiles_loop d fs ps
      | Some (Symlink t) \<Rightarrow> LoadIgnoreFiles_loop d fs ps
      | Some n \<Rightarrow>
          (case loadFile n f ps of
             (ps', ok) \<Rightarrow> if ok then LoadIgnoreFiles_loop d fs ps' else ps'))"

definition NewIgnoreMatcher :: "path \<Rightarrow> IgnoreMatcher option \<Rightarrow> node \<Rightarrow> IgnoreMatcher" where
  "NewIgnoreMatcher p par d =
     IgnoreMatcher
       (case d of
          Dir r cs \<Rightarrow> LoadIgnoreFiles_loop d [''.gitignore'', ''.backupignore''] []
        | _ \<Rightarrow> [])
       par p"

section \<open>The snapshot builder\<close>

datatype EntryType = EntryTypeFile | EntryTypeDirectory | EntryTypeLink

fun type_int :: "EntryType \<Rightarrow> nat" where
  "type_int EntryTypeFile = 0"
| "type_int EntryTypeDirectory = 1"
| "type_int EntryTypeLink = 2"

datatype IgnoredEntry = IgnoredEntry (ig_Path: path) (ig_Name: string) (ig_Reason: "Pattern option")

text \<open>
  The entries of the tree the builder walks. A \<open>DirectoryEntry\<close> holds what its \<open>scan\<close>
  yields (the Go object computes it on first use and keeps it): the error that \<open>scan\<close>
  returned, if any, and otherwise the sorted children and the ignored names.
\<close>

datatype Entry =
    FileEntry (e_path: path) (e_name: string) (e_hash: string)
  | LinkEntry (e_path: path) (e_name: string) (e_target: string) (e_hash: string)
  | DirectoryEntry (e_path: path) (e_name: string) (e_scan_err: "error option")
      (e_content: "Entry list") (e_ignored: "IgnoredEntry list")

definition Name :: "Entry \<Rightarrow> string" where
  "Name e = e_name e"

fun Type :: "Entry \<Rightarrow> EntryType" where
  "Type (FileEntry p n h) = EntryTypeFile"
| "Type (LinkEntry p n t h) = EntryTypeLink"
| "Type (DirectoryEntry p n se cs ig) = EntryTypeDirectory"

definition typeChar :: "Entry \<Rightarrow> char" where
  "typeChar child =
     (if Type child = EntryTypeDirectory then CHR ''D''
      else if Type child = EntryTypeLink then CHR ''L''
      else CHR ''F'')"

text \<open>
  \<open>Hash\<close> of an entry, and the loop of \<open>ContentAsText\<close> over the children, \<open>sb\<close>
  being the text built so far.
\<close>

fun Hash :: "platform \<Rightarrow> Entry \<Rightarrow> error + string"
  and text_loop :: "platform \<Rightarrow> Entry list \<Rightarrow> string \<Rightarrow> error + string" where
  "Hash L (FileEntry p n h) = Inr h"
| "Hash L (LinkEntry p n t h) = Inr h"
| "Hash L (DirectoryEntry p n se cs ig) =
     (case se of
        Some e \<Rightarrow> Inl e
      | None \<Rightarrow>
          (case text_loop L cs [] of
             Inl e \<Rightarrow> Inl e
           | Inr content \<Rightarrow> Inr (md5hex L content)))"
| "text_loop L [] sb = Inr sb"
| "text_loop L (child # rest) sb =
     (case Hash L child of
        Inl e \<Rightarrow> Inl e
      | Inr h \<Rightarrow> text_loop L rest (sb @ typeChar child # SP # h @ SP # Name child @ [LF]))"

definition ContentAsText :: "platform \<Rightarrow> Entry \<Rightarrow> error + string" where
  "ContentAsText L e =
     (case e_scan_err e of
        Some err \<Rightarrow> Inl err
      | None \<Rightarrow> text_loop L (e_content e) [])"

text \<open>
  \<open>entrySorter.Less\<close>: a \<open>Hash\<close> that fails counts as the empty string.
  \<open>sort.Sort\<close> is modelled by insertion: it yields the entries in an order in which no
  entry is \<open>Less\<close> than an earlier one.
\<close>

definition hash_or_empty :: "platform \<Rightarrow> Entry \<Rightarrow> string" where
  "hash_or_empty L e = (case Hash L e of Inr h \<Rightarrow> h | Inl err \<Rightarrow> [])"

definition Less :: "platform \<Rightarrow> Entry \<Rightarrow> Entry \<Rightarrow> bool" where
  "Less L ei ej =
     (if Type ei \<noteq> Type ej then type_int (Type ei) < type_int (Type ej)
      else
        (let hi = hash_or_empty L ei; hj = hash_or_empty L ej in
         if hi \<noteq> hj then hi < hj else Name ei < Name ej))"

fun sort_insert :: "platform \<Rightarrow> Entry \<Rightarrow> Entry list \<Rightarrow> Entry list" where
  "sort_insert L x [] = [x]"
| "sort_insert L x (y # ys) = (if Less L x y then x # y # ys else y # sort_insert L x ys)"

fun sort_Sort :: "platform \<Rightarrow> Entry list \<Rightarrow> Entry list" where
  "sort_Sort L [] = []"
| "sort_Sort L (x # xs) = sort_insert L x (sort_Sort L xs)"

text \<open>
  \<open>NewLinkEntry\<close> and \<open>NewFileEntry\<close>. The hash cache is a field of the backup:
  \<open>FileHash\<close> gives, for the path of a file, the digest the cache holds or computes, or
  the error of reading the file.
\<close>

definition NewLinkEntry :: "platform \<Rightarrow> path \<Rightarrow> node \<Rightarrow> error + Entry" where
  "NewLinkEntry L p n =
     (case Readlink n of
        Inl e \<Rightarrow> Inl (OsError e)
      | Inr t \<Rightarrow> Inr (LinkEntry p (Base p) t (md5hex L t)))"

definition NewFileEntry :: "(path \<Rightarrow> error + string) \<Rightarrow> path \<Rightarrow> error + Entry" where
  "NewFileEntry FileHash p =
     (case FileHash p of
        Inl e \<Rightarrow> Inl e
      | Inr h \<Rightarrow> Inr (FileEntry p (Base p) h))"

text \<open>
  \<open>NewDirectoryEntry\<close> followed by \<open>scan\<close>, and the loop of \<open>scan\<close> over the entries
  that \<open>os.ReadDir\<close> returned, with the entries and the ignored names collected so
  far. The loop returns the error that ends \<open>scan\<close>, or the sorted content and the
  ignored names.
\<close>

fun NewDirectoryEntry ::
    "platform \<Rightarrow> (path \<Rightarrow> error + string) \<Rightarrow> path \<Rightarrow> IgnoreMatcher option \<Rightarrow> node \<Rightarrow> Entry"
  and scan_loop ::
    "platform \<Rightarrow> (path \<Rightarrow> error + string) \<Rightarrow> path \<Rightarrow> IgnoreMatcher \<Rightarrow> (string \<times> node) list
       \<Rightarrow> Entry list \<Rightarrow> IgnoredEntry list \<Rightarrow> error option \<times> Entry list \<times> IgnoredEntry list"
  where
  "NewDirectoryEntry L FileHash p parentMatcher (File bs) =
     DirectoryEntry p (Base p) None [] []"
| "NewDirectoryEntry L FileHash p parentMatcher (Symlink t) =
     DirectoryEntry p (Base p) None [] []"
| "NewDirectoryEntry L FileHash p parentMatcher (Dir r cs) =
     (if \<not> r then DirectoryEntry p (Base p) None [] []
      else
        (case scan_loop L FileHash p (NewIgnoreMatcher p parentMatcher (Dir r cs)) cs [] [] of
           (err, entries, ignored) \<Rightarrow> DirectoryEntry p (Base p) err entries ignored))"
| "scan_loop L FileHash p m [] entries ignored = (None, sort_Sort L entries, ignored)"
| "scan_loop L FileHash p m ((name, f) # files) entries ignored =
     (let fullPath = p @ [name]; isDir = IsDir f in
      if fst (Match L m fullPath isDir)
      then scan_loop L FileHash p m files entries
             (ignored @ [IgnoredEntry fullPath name (snd (Match L m fullPath isDir))])
      else if IsSymlink f then
        (if fst (Match L m fullPath False)
         then scan_loop L FileHash p m files entries
                (ignored @ [IgnoredEntry fullPath name (snd (Match L m fullPath False))])
         else
           (case NewLinkEntry L fullPath f of
              Inl e \<Rightarrow> (Some e, [], [])
            | Inr le \<Rightarrow> scan_loop L FileHash p m files (entries @ [le]) ignored))
      else if name = ''.backup'' then scan_loop L FileHash p m files entries ignored
      else if isDir then
        scan_loop L FileHash p m files
          (entries @ [NewDirectoryEntry L FileHash fullPath (Some m) f]) ignored
      else
        (case NewFileEntry FileHash fullPath of
           Inl e \<Rightarrow> (Some e, [], [])
         | Inr fe \<Rightarrow> scan_loop L FileHash p m files (entries @ [fe]) ignored))"

text \<open>A pattern of the examples: \<open>ex_pat s neg\<close> is the line \<open>s\<close>, or \<open>!s\<close>.\<close>

definition ex_pat :: "string \<Rightarrow> bool \<Rightarrow> Pattern" where
  "ex_pat s neg =
     \<lparr> raw = (if neg then ''!'' @ s else s), pattern = s, isNegation = neg,
       isDirOnly = False, isRooted = False, Source = ''.gitignore'' \<rparr>"

definition ex_FileHash :: "path \<Rightarrow> error + string" where
  "ex_FileHash p = Inr (toy_md5 (Base p))"

text \<open>
  The sort key of an entry, (type, digest, name) with file 0, directory 1 and link 2,
  ordered lexicographically, and the line of an entry in the listing of its directory.
\<close>

definition entry_key :: "platform \<Rightarrow> Entry \<Rightarrow> nat \<times> string \<times> string" where
  "entry_key L e = (type_int (Type e), hash_or_empty L e, Name e)"

definition entry_line :: "platform \<Rightarrow> Entry \<Rightarrow> string" where
  "entry_line L e = typeChar e # SP # hash_or_empty L e @ SP # Name e @ [LF]"

text \<open>
  Serializing again what the reader returned for a directory: the entries sorted by
  (type, digest, name) and written one per line, as the builder writes a listing.
\<close>

fun be_type :: "BackupEntry \<Rightarrow> EntryType" where
  "be_type (BackupFile h n) = EntryTypeFile"
| "be_type (BackupLink h n) = EntryTypeLink"
| "be_type (BackupDirectory h n) = EntryTypeDirectory"

definition be_key :: "BackupEntry \<Rightarrow> nat \<times> string \<times> string" where
  "be_key e = (type_int (be_type e), be_hash e, be_name e)"

definition be_line :: "BackupEntry \<Rightarrow> string" where
  "be_line e =
     (if be_type e = EntryTypeDirectory then CHR ''D''
      else if be_type e = EntryTypeLink then CHR ''L'' else CHR ''F'')
     # SP # be_hash e @ SP # be_name e @ [LF]"

definition reserialize :: "(string \<times> BackupEntry) list \<Rightarrow> string" where
  "reserialize m = concat (map be_line (sort_key be_key (map snd m)))"

text \<open>What the reader makes of the text of a listing.\<close>

definition read_back :: "string \<Rightarrow> (string \<times> BackupEntry) list" where
  "read_back content = fst (entries_loop (fst (scanner_lines content False)) ([], []))"

text \<open>
  A name that survives the line format: not empty, without line feed, not ending in a
  carriage return, and short enough for the line to fit the scanner's buffer. A digest
  as MD5 writes it has 32 bytes, none of them a line feed.
\<close>

definition line_safe_name :: "string \<Rightarrow> bool" where
  "line_safe_name n = (n \<noteq> [] \<and> LF \<notin> set n \<and> last n \<noteq> CR \<and> length n < 65500)"

definition digest_shaped :: "string \<Rightarrow> bool" where
  "digest_shaped h = (length h = 32 \<and> LF \<notin> set h)"

text \<open>The entry the reader returns for the line of a builder's entry.\<close>

definition be_of :: "platform \<Rightarrow> Entry \<Rightarrow> BackupEntry" where
  "be_of L c =
     (case Type c of
        EntryTypeFile \<Rightarrow> BackupFile (hash_or_empty L c) (Name c)
      | EntryTypeLink \<Rightarrow> BackupLink (hash_or_empty L c) (Name c)
      | EntryTypeDirectory \<Rightarrow> BackupDirectory (hash_or_empty L c) (Name c))"

text \<open>The line of an entry without its line feed.\<close>

definition line0 :: "platform \<Rightarrow> Entry \<Rightarrow> string" where
  "line0 L c = typeChar c # SP # hash_or_empty L c @ SP # Name c"

text \<open>A hash cache of the examples that holds one digest for every file.\<close>

definition ex_digest :: string where
  "ex_digest = ''0123456789abcdef0123456789abcdef''"

definition ex_const_FileHash :: "path \<Rightarrow> error + string" where
  "ex_const_FileHash p = Inr ex_digest"

section \<open>Operations on the store's file system\<close>

definition fnode_size :: "platform \<Rightarrow> fnode \<Rightarrow> nat" where
  "fnode_size L n =
     (case n of RegFile bs m \<Rightarrow> length bs | DirNode \<Rightarrow> dirSize L | LinkNode t \<Rightarrow> length t)"

text \<open>
  The directory a new name is created in must exist and be a directory; the root (the
  parent of a path of one component) always does.
\<close>

definition parent_error :: "filesys \<Rightarrow> path \<Rightarrow> os_error option" where
  "parent_error fs p =
     (if butlast p = [] then None
      else
        (case map_of fs (butlast p) of
           None \<Rightarrow> Some ErrNotExist
         | Some DirNode \<Rightarrow> None
         | Some (RegFile bs m) \<Rightarrow> Some ErrNotDir
         | Some (LinkNode t) \<Rightarrow> Some ErrSymlink))"

text \<open>
  \<open>os.MkdirAll\<close>: \<open>MkdirAll_from fs pre cs\<close> creates the directories
  \<open>pre @ take i cs\<close> that are missing, and fails at a prefix that is not a directory.
\<close>

fun MkdirAll_from :: "filesys \<Rightarrow> path \<Rightarrow> path \<Rightarrow> os_error + filesys" where
  "MkdirAll_from fs pre [] = Inr fs"
| "MkdirAll_from fs pre (c # cs) =
     (case map_of fs (pre @ [c]) of
        None \<Rightarrow> MkdirAll_from (AList.update (pre @ [c]) DirNode fs) (pre @ [c]) cs
      | Some DirNode \<Rightarrow> MkdirAll_from fs (pre @ [c]) cs
      | Some (RegFile bs m) \<Rightarrow> Inl ErrNotDir
      | Some (LinkNode t) \<Rightarrow> Inl ErrSymlink)"

definition os_MkdirAll :: "filesys \<Rightarrow> path \<Rightarrow> os_error + filesys" where
  "os_MkdirAll fs p = MkdirAll_from fs [] p"

text \<open>
  \<open>os.Create\<close> (open for writing, create with mode 0666 before umask, truncate): a
  new file gets the bits of 0666 that the umask leaves, an existing file keeps its mode
  and loses its bytes.
\<close>

definition create_mode :: "platform \<Rightarrow> nat" where
  "create_mode L = 438 - (438 AND umask L)"

definition os_Create :: "platform \<Rightarrow> filesys \<Rightarrow> path \<Rightarrow> os_error + filesys" where
  "os_Create L fs p =
     (if p = [] then Inl ErrNotExist
      else
        (case parent_error fs p of
           Some e \<Rightarrow> Inl e
         | None \<Rightarrow>
             (case map_of fs p of
                None \<Rightarrow> Inr (AList.update p (RegFile [] (create_mode L)) fs)
              | Some (RegFile bs m) \<Rightarrow> Inr (AList.update p (RegFile [] m) fs)
              | Some DirNode \<Rightarrow> Inl ErrIsDir
              | Some (LinkNode t) \<Rightarrow> Inl ErrSymlink)))"

text \<open>Writing \<open>data\<close> to the file just created at \<open>p\<close>.\<close>

definition write_bytes :: "filesys \<Rightarrow> path \<Rightarrow> string \<Rightarrow> filesys" where
  "write_bytes fs p data =
     (case map_of fs p of
        Some (RegFile bs m) \<Rightarrow> AList.update p (RegFile (bs @ data) m) fs
      | _ \<Rightarrow> fs)"

text \<open>
  \<open>os.Rename\<close> of a file or link onto a path that is not a directory. Renaming a
  directory is outside the model (it is reported as \<open>ErrIsDir\<close>).
\<close>

definition os_Rename :: "filesys \<Rightarrow> path \<Rightarrow> path \<Rightarrow> os_error + filesys" where
  "os_Rename fs old new =
     (if old = [] \<or> new = [] then Inl ErrNotExist
      else
        (case map_of fs old of
           None \<Rightarrow> Inl ErrNotExist
         | Some DirNode \<Rightarrow> Inl ErrIsDir
         | Some n \<Rightarrow>
             (case parent_error fs new of
                Some e \<Rightarrow> Inl e
              | None \<Rightarrow>
                  (case map_of fs new of
                     Some DirNode \<Rightarrow> Inl ErrIsDir
                   | _ \<Rightarrow> Inr (AList.update new n (AList.delete old fs))))))"

text \<open>\<open>os.Remove\<close>: a file, a link or an empty directory.\<close>

definition has_children :: "filesys \<Rightarrow> path \<Rightarrow> bool" where
  "has_children fs p = (\<exists>q \<in> fst ` set fs. q \<noteq> [] \<and> butlast q = p)"

definition os_Remove :: "filesys \<Rightarrow> path \<Rightarrow> os_error + filesys" where
  "os_Remove fs p =
     (if p = [] then Inl ErrNotExist
      else
        (case map_of fs p of
           None \<Rightarrow> Inl ErrNotExist
         | Some DirNode \<Rightarrow>
             (if has_children fs p then Inl ErrNotEmpty else Inr (AList.delete p fs))
         | Some n \<Rightarrow> Inr (AList.delete p fs)))"

text \<open>\<open>os.Symlink target dest\<close>: \<open>dest\<close> must not exist.\<close>

definition os_Symlink :: "filesys \<Rightarrow> string \<Rightarrow> path \<Rightarrow> os_error + filesys" where
  "os_Symlink fs t p =
     (if p = [] then Inl ErrNotExist
      else
        (case parent_error fs p of
           Some e \<Rightarrow> Inl e
         | None \<Rightarrow>
             (case map_of fs p of
                None \<Rightarrow> Inr (AList.update p (LinkNode t) fs)
              | Some n \<Rightarrow> Inl ErrPermission)))"

text \<open>
  \<open>os.ReadDir\<close> on the store: the names directly below \<open>p\<close>, sorted, each with its
  node.
\<close>

definition child_names :: "filesys \<Rightarrow> path \<Rightarrow> string list" where
  "child_names fs p =
     sort (remdups (map (\<lambda>kv. last (fst kv)) (filter (\<lambda>kv. fst kv \<noteq> [] \<and> butlast (fst kv) = p) fs)))"

definition os_ReadDir :: "filesys \<Rightarrow> path \<Rightarrow> os_error + (string \<times> fnode) list" where
  "os_ReadDir fs p =
     (case os_Stat fs p of
        Inl e \<Rightarrow> Inl e
      | Inr (RegFile bs m) \<Rightarrow> Inl ErrNotDir
      | Inr n \<Rightarrow>
          Inr (List.map_filter (\<lambda>c. map_option (Pair c) (map_of fs (p @ [c]))) (child_names fs p)))"

section \<open>Saving entries: \<open>Save\<close>\<close>

record BackupStats =
  FilesTotal :: int
  FilesArchived :: int
  FilesIgnored :: int
  DirsTotal :: int
  DirsArchived :: int
  DirsIgnored :: int
  BytesArchived :: int
  BytesTotal :: int

text \<open>What \<open>Save\<close> changes: the file system of the store and \<open>b.Stats\<close>.\<close>

record world =
  w_fs :: filesys
  w_stats :: BackupStats

text \<open>
  The source file of a file entry is read through its path below \<open>Top\<close> in the source
  tree.
\<close>

fun node_at :: "node \<Rightarrow> path \<Rightarrow> node option" where
  "node_at n [] = Some n"
| "node_at n (c # cs) =
     (case n of
        Dir r chs \<Rightarrow> (case map_of chs c of None \<Rightarrow> None | Some m \<Rightarrow> node_at m cs)
      | _ \<Rightarrow> None)"

definition src_Stat :: "Backup \<Rightarrow> node \<Rightarrow> path \<Rightarrow> os_error + node" where
  "src_Stat b root p =
     (if take (length (Top b)) p \<noteq> Top b then Inl ErrNotExist
      else
        (case node_at root (drop (length (Top b)) p) of
           None \<Rightarrow> Inl ErrNotExist
         | Some (Symlink t) \<Rightarrow> Inl ErrSymlink
         | Some n \<Rightarrow> Inr n))"

definition src_size :: "platform \<Rightarrow> node \<Rightarrow> nat" where
  "src_size L n = (case n of File bs \<Rightarrow> length bs | _ \<Rightarrow> dirSize L)"

definition partial_of :: "path \<Rightarrow> path" where
  "partial_of dest = butlast dest @ [last dest @ ''.partial'']"

definition blob_exists :: "Backup \<Rightarrow> filesys \<Rightarrow> string \<Rightarrow> bool" where
  "blob_exists b fs hash = (case os_Stat fs (DataStore b hash) of Inr n \<Rightarrow> True | Inl e \<Rightarrow> False)"

text \<open>
  The end of the three \<open>Save\<close> methods: the gzip writer over the file created at
  \<open>dest + ".partial"\<close> gets the data and is closed, and the file is renamed to \<open>dest\<close>.
\<close>

definition write_partial_and_rename ::
  "platform \<Rightarrow> filesys \<Rightarrow> path \<Rightarrow> string \<Rightarrow> filesys \<times> error option" where
  "write_partial_and_rename L fs dest data =
     (case os_Rename (write_bytes fs (partial_of dest) (gzip L data)) (partial_of dest) dest of
        Inl e \<Rightarrow> (write_bytes fs (partial_of dest) (gzip L data), Some (OsError e))
      | Inr fs' \<Rightarrow> (fs', None))"

definition FileEntry_Save ::
  "platform \<Rightarrow> Backup \<Rightarrow> node \<Rightarrow> path \<Rightarrow> string \<Rightarrow> world \<Rightarrow> world \<times> error option" where
  "FileEntry_Save L b root epath ehash w =
     (let st1 = (w_stats w)\<lparr>FilesTotal := FilesTotal (w_stats w) + 1\<rparr>;
          dest = DataStore b ehash
      in
      if dest = [] then (w\<lparr>w_stats := st1\<rparr>, Some InvalidHash)
      else if blob_exists b (w_fs w) ehash then (w\<lparr>w_stats := st1\<rparr>, None)
      else
        (let st2 = st1\<lparr>FilesArchived := FilesArchived st1 + 1\<rparr>;
             st3 = (case src_Stat b root epath of
                      Inr n \<Rightarrow> st2\<lparr>BytesArchived := BytesArchived st2 + int (src_size L n)\<rparr>
                    | Inl e \<Rightarrow> st2)
         in
         if DryRun b then (w\<lparr>w_stats := st3\<rparr>, None)
         else
           (case os_MkdirAll (w_fs w) (butlast dest) of
              Inl e \<Rightarrow> (w\<lparr>w_stats := st3\<rparr>, Some (OsError e))
            | Inr fs1 \<Rightarrow>
                (case src_Stat b root epath of
                   Inl e \<Rightarrow> (\<lparr>w_fs = fs1, w_stats = st3\<rparr>, Some (OsError e))
                 | Inr orig \<Rightarrow>
                     (case os_Create L fs1 (partial_of dest) of
                        Inl e \<Rightarrow> (\<lparr>w_fs = fs1, w_stats = st3\<rparr>, Some (OsError e))
                      | Inr fs2 \<Rightarrow>
                          (case orig of
                             File bs \<Rightarrow>
                               (case write_partial_and_rename L fs2 dest bs of
                                  (fs3, r) \<Rightarrow> (\<lparr>w_fs = fs3, w_stats = st3\<rparr>, r))
                           | _ \<Rightarrow>
                               (\<lparr>w_fs = write_bytes fs2 (partial_of dest) (gzip L []),
                                  w_stats = st3\<rparr>, Some (OsError ErrIsDir))))))))"

definition LinkEntry_Save ::
  "platform \<Rightarrow> Backup \<Rightarrow> string \<Rightarrow> string \<Rightarrow> world \<Rightarrow> world \<times> error option" where
  "LinkEntry_Save L b etarget ehash w =
     (let st1 = (w_stats w)\<lparr>FilesTotal := FilesTotal (w_stats w) + 1\<rparr>;
          dest = DataStore b ehash
      in
      if dest = [] then (w\<lparr>w_stats := st1\<rparr>, Some InvalidHash)
      else if blob_exists b (w_fs w) ehash then (w\<lparr>w_stats := st1\<rparr>, None)
      else
        (let st2 = st1\<lparr>FilesArchived := FilesArchived st1 + 1\<rparr> in
         if DryRun b then (w\<lparr>w_stats := st2\<rparr>, None)
         else
           (case os_MkdirAll (w_fs w) (butlast dest) of
              Inl e \<Rightarrow> (w\<lparr>w_stats := st2\<rparr>, Some (OsError e))
            | Inr fs1 \<Rightarrow>
                (case os_Create L fs1 (partial_of dest) of
                   Inl e \<Rightarrow> (\<lparr>w_fs = fs1, w_stats = st2\<rparr>, Some (OsError e))
                 | Inr fs2 \<Rightarrow>
                     (case write_partial_and_rename L fs2 dest etarget of
                        (fs3, r) \<Rightarrow> (\<lparr>w_fs = fs3, w_stats = st2\<rparr>, r))))))"

text \<open>
  What \<open>DirectoryEntry.Save\<close> does after its children are saved, \<open>hr\<close> being the
  result of \<open>e.Hash()\<close> and \<open>content\<close> the listing.
\<close>

definition DirectoryEntry_Save_self ::
  "platform \<Rightarrow> Backup \<Rightarrow> error + string \<Rightarrow> error + string \<Rightarrow> world \<Rightarrow> world \<times> error option" where
  "DirectoryEntry_Save_self L b hr content w =
     (case hr of
        Inl e \<Rightarrow> (w, Some e)
      | Inr h \<Rightarrow>
          (let dest = DataStore b h in
           if dest = [] then (w, Some InvalidHash)
           else if blob_exists b (w_fs w) h then (w, None)
           else
             (let st1 = (w_stats w)\<lparr>DirsArchived := DirsArchived (w_stats w) + 1\<rparr> in
              if DryRun b then (w\<lparr>w_stats := st1\<rparr>, None)
              else
                (case os_MkdirAll (w_fs w) (butlast dest) of
                   Inl e \<Rightarrow> (w\<lparr>w_stats := st1\<rparr>, Some (OsError e))
                 | Inr fs1 \<Rightarrow>
                     (case os_Create L fs1 (partial_of dest) of
                        Inl e \<Rightarrow> (\<lparr>w_fs = fs1, w_stats = st1\<rparr>, Some (OsError e))
                      | Inr fs2 \<Rightarrow>
                          (case content of
                             Inl e \<Rightarrow>
                               (\<lparr>w_fs = write_bytes fs2 (partial_of dest) (gzip L []),
                                  w_stats = st1\<rparr>, Some e)
                           | Inr c \<Rightarrow>
                               (case write_partial_and_rename L fs2 dest c of
                                  (fs3, r) \<Rightarrow> (\<lparr>w_fs = fs3, w_stats = st1\<rparr>, r))))))))"

fun Save :: "platform \<Rightarrow> Backup \<Rightarrow> node \<Rightarrow> Entry \<Rightarrow> world \<Rightarrow> world \<times> error option"
  and Save_loop :: "platform \<Rightarrow> Backup \<Rightarrow> node \<Rightarrow> Entry list \<Rightarrow> world \<Rightarrow> world \<times> error option"
  where
  "Save L b root (FileEntry p n h) w = FileEntry_Save L b root p h w"
| "Save L b root (LinkEntry p n t h) w = LinkEntry_Save L b t h w"
| "Save L b root (DirectoryEntry p n se cs ig) w =
     (let w1 = w\<lparr>w_stats := (w_stats w)\<lparr>DirsTotal := DirsTotal (w_stats w) + 1\<rparr>\<rparr> in
      case se of
        Some e \<Rightarrow> (w1, Some e)
      | None \<Rightarrow>
          (case Save_loop L b root cs w1 of
             (w2, Some e) \<Rightarrow> (w2, Some e)
           | (w2, None) \<Rightarrow>
               DirectoryEntry_Save_self L b (Hash L (DirectoryEntry p n se cs ig))
                 (ContentAsText L (DirectoryEntry p n se cs ig)) w2))"
| "Save_loop L b root [] w = (w, None)"
| "Save_loop L b root (child # rest) w =
     (case Save L b root child w of
        (w1, Some e) \<Rightarrow> (w1, Some e)
      | (w1, None) \<Rightarrow> Save_loop L b root rest w1)"

text \<open>
  The \<open>put\<close> of a blob in the words of the specification: the shard directory is
  created on demand, the compressed bytes are written to \<open>dest + ".partial"\<close>, and that
  file is renamed to \<open>dest\<close>.
\<close>

definition put_blob :: "platform \<Rightarrow> filesys \<Rightarrow> path \<Rightarrow> string \<Rightarrow> os_error + filesys" where
  "put_blob L fs dest data =
     (case os_MkdirAll fs (butlast dest) of
        Inl e \<Rightarrow> Inl e
      | Inr fs1 \<Rightarrow>
          (case os_Create L fs1 (partial_of dest) of
             Inl e \<Rightarrow> Inl e
           | Inr fs2 \<Rightarrow>
               os_Rename (write_bytes fs2 (partial_of dest) (gzip L data)) (partial_of dest) dest))"

text \<open>
  \<open>all_saved L b fs e\<close>: the blob of \<open>e\<close> and of every entry below \<open>e\<close> is in the store.
\<close>

fun all_saved :: "platform \<Rightarrow> Backup \<Rightarrow> filesys \<Rightarrow> Entry \<Rightarrow> bool" where
  "all_saved L b fs (FileEntry p n h) = blob_exists b fs h"
| "all_saved L b fs (LinkEntry p n t h) = blob_exists b fs h"
| "all_saved L b fs (DirectoryEntry p n se cs ig) =
     (se = None \<and> list_all (all_saved L b fs) cs \<and>
      (case Hash L (DirectoryEntry p n se cs ig) of
         Inr h \<Rightarrow> blob_exists b fs h
       | Inl e \<Rightarrow> False))"

definition archived :: "BackupStats \<Rightarrow> int \<times> int \<times> int" where
  "archived st = (FilesArchived st, DirsArchived st, BytesArchived st)"

definition fs_le :: "Backup \<Rightarrow> filesys \<Rightarrow> filesys \<Rightarrow> bool" where
  "fs_le b fs fs' = (\<forall>h. blob_exists b fs h \<longrightarrow> blob_exists b fs' h)"

definition zero_stats :: BackupStats where
  "zero_stats = \<lparr> FilesTotal = 0, FilesArchived = 0, FilesIgnored = 0, DirsTotal = 0,
                   DirsArchived = 0, DirsIgnored = 0, BytesArchived = 0, BytesTotal = 0 \<rparr>"

text \<open>The source of the examples, one file in the top directory, and its entry.\<close>

definition ex_src :: node where
  "ex_src = Dir True [(''a.txt'', File ''hi'')]"

definition ex_file_entry :: Entry where
  "ex_file_entry = FileEntry [''src'', ''a.txt''] ''a.txt'' ex_digest"

definition ex_dir_entry :: Entry where
  "ex_dir_entry = DirectoryEntry [''src''] ''src'' None [ex_file_entry] []"

definition ex_world0 :: world where
  "ex_world0 = \<lparr> w_fs = [], w_stats = zero_stats \<rparr>"

text \<open>The store after the first backup of the example source: the blob of the file and the
  blob of the listing of the top directory, each in its shard directory.\<close>

definition ex_dir_hash :: string where
  "ex_dir_hash = ''F 0123456789abcdef0123456789abcd''"

definition ex_store1 :: filesys where
  "ex_store1 =
     [([''st''], DirNode), ([''st'', ''data''], DirNode),
      ([''st'', ''data'', ''01''], DirNode),
      ([''st'', ''data'', ''01'', ''0123456789abcdef0123456789abcdef.gz''],
       RegFile ''GZhi'' 420),
      ([''st'', ''data'', ''F ''], DirNode),
      ([''st'', ''data'', ''F '', ''F 0123456789abcdef0123456789abcd.gz''],
       RegFile (''GZF 0123456789abcdef0123456789abcdef a.txt'' @ [LF]) 420)]"

definition ex_world1 :: world where
  "ex_world1 = \<lparr> w_fs = ex_store1,
       w_stats = zero_stats \<lparr> FilesTotal := 1, FilesArchived := 1, DirsTotal := 1,
                               DirsArchived := 1, BytesArchived := 2 \<rparr> \<rparr>"

text \<open>A store that holds the listing of the top directory but not the blob of its file.\<close>

definition ex_store_holed :: filesys where
  "ex_store_holed =
     [([''st''], DirNode), ([''st'', ''data''], DirNode),
      ([''st'', ''data'', ''F ''], DirNode),
      ([''st'', ''data'', ''F '', ''F 0123456789abcdef0123456789abcd.gz''],
       RegFile (''GZF 0123456789abcdef0123456789abcdef a.txt'' @ [LF]) 420)]"

section \<open>Restoring entries: \<open>Restore\<close>\<close>

text \<open>
  The step of \<open>Restore\<close> that failed, as the message of the error names it.
\<close>

datatype restore_error =
    OpenStoreFailed os_error
  | GzipReaderFailed
  | MkdirFailed os_error
  | CreateFailed os_error
  | CopyFailed
  | ReadTargetFailed
  | RemoveFailed os_error
  | SymlinkFailed os_error

text \<open>
  \<open>BackupFile.Restore\<close>. The blob and the destination live in one file system. The
  blob is read as it was when it was opened, so the model is that of the code for a
  destination other than the blob itself. \<open>filepath.Dir dest\<close> is \<open>butlast dest\<close>.
  When the copy fails, the destination holds what was decompressed before the error.
\<close>

definition BackupFile_Restore ::
  "platform \<Rightarrow> Backup \<Rightarrow> filesys \<Rightarrow> string \<Rightarrow> path \<Rightarrow> filesys \<times> restore_error option" where
  "BackupFile_Restore L b fs hash dest =
     (case os_Open fs (DataStore b hash) of
        Inl e \<Rightarrow> (fs, Some (OpenStoreFailed e))
      | Inr src \<Rightarrow>
          (case gzip_NewReader L src of
             GzHeaderError \<Rightarrow> (fs, Some GzipReaderFailed)
           | GzStream gdata berr \<Rightarrow>
               (case os_MkdirAll fs (butlast dest) of
                  Inl e \<Rightarrow> (fs, Some (MkdirFailed e))
                | Inr fs1 \<Rightarrow>
                    (case os_Create L fs1 dest of
                       Inl e \<Rightarrow> (fs1, Some (CreateFailed e))
                     | Inr fs2 \<Rightarrow>
                         (write_bytes fs2 dest gdata,
                          if berr then Some CopyFailed else None)))))"

text \<open>\<open>BackupLink.Restore\<close>.\<close>

definition BackupLink_Restore ::
  "platform \<Rightarrow> Backup \<Rightarrow> filesys \<Rightarrow> string \<Rightarrow> path \<Rightarrow> filesys \<times> restore_error option" where
  "BackupLink_Restore L b fs hash dest =
     (case os_Open fs (DataStore b hash) of
        Inl e \<Rightarrow> (fs, Some (OpenStoreFailed e))
      | Inr src \<Rightarrow>
          (case gzip_NewReader L src of
             GzHeaderError \<Rightarrow> (fs, Some GzipReaderFailed)
           | GzStream target berr \<Rightarrow>
               (if berr then (fs, Some ReadTargetFailed)
                else
                  (case os_MkdirAll fs (butlast dest) of
                     Inl e \<Rightarrow> (fs, Some (MkdirFailed e))
                   | Inr fs1 \<Rightarrow>
                       (case os_Lstat fs1 dest of
                          Inr n \<Rightarrow>
                            (case os_Remove fs1 dest of
                               Inl e \<Rightarrow> (fs1, Some (RemoveFailed e))
                             | Inr fs2 \<Rightarrow>
                                 (case os_Symlink fs2 target dest of
                                    Inl e \<Rightarrow> (fs2, Some (SymlinkFailed e))
                                  | Inr fs3 \<Rightarrow> (fs3, None)))
                        | Inl e0 \<Rightarrow>
                            (case os_Symlink fs1 target dest of
                               Inl e \<Rightarrow> (fs1, Some (SymlinkFailed e))
                             | Inr fs3 \<Rightarrow> (fs3, None)))))))"

text \<open>A store that also holds the blob of a link whose target is \<open>a.txt\<close>.\<close>

definition ex_link_hash :: string where
  "ex_link_hash = ''a.txt000000000000000000000000000''"

definition ex_store2 :: filesys where
  "ex_store2 = ex_store1 @
     [([''st'', ''data'', ''a.''], DirNode),
      ([''st'', ''data'', ''a.'', ''a.txt000000000000000000000000000.gz''], RegFile ''GZa.txt'' 420)]"

section \<open>Snapshot heads: \<open>NewBackupRoot\<close>, \<open>AllBackupRoots\<close>\<close>

record BackupRoot =
  Time :: int
  BackupHead :: path
  root_hash :: string

text \<open>\<open>ioutil.ReadFile\<close>: the bytes of a regular file.\<close>

definition ReadFile :: "filesys \<Rightarrow> path \<Rightarrow> os_error + string" where
  "ReadFile fs p =
     (case os_Open fs p of
        Inl e \<Rightarrow> Inl e
      | Inr (RegFile bs m) \<Rightarrow> Inr bs
      | Inr n \<Rightarrow> Inl ErrIsDir)"

definition NewBackupRoot :: "platform \<Rightarrow> filesys \<Rightarrow> path \<Rightarrow> error + BackupRoot" where
  "NewBackupRoot L fs headPath =
     (case parseTime L (Base headPath) of
        None \<Rightarrow> Inl TimeParseError
      | Some t \<Rightarrow>
          (case ReadFile fs headPath of
             Inl e \<Rightarrow> Inl (OsError e)
           | Inr content \<Rightarrow>
               (let hash = TrimSpace content in
                if length hash = 0 then Inl SnapshotFileEmpty
                else Inr \<lparr> Time = t, BackupHead = headPath, root_hash = hash \<rparr>)))"

definition BackupRoot_Hash :: "filesys \<Rightarrow> BackupRoot \<Rightarrow> error + string" where
  "BackupRoot_Hash fs r =
     (if root_hash r \<noteq> [] then Inr (root_hash r)
      else
        (case ReadFile fs (BackupHead r) of
           Inl e \<Rightarrow> Inl (OsError e)
         | Inr content \<Rightarrow> Inr (TrimSpace content)))"

text \<open>
  The heads in one project directory: the entries that are not directories and that
  \<open>NewBackupRoot\<close> accepts.
\<close>

definition project_roots ::
  "platform \<Rightarrow> filesys \<Rightarrow> path \<Rightarrow> (string \<times> fnode) list \<Rightarrow> BackupRoot list" where
  "project_roots L fs projectDir files =
     List.map_filter
       (\<lambda>f. if snd f = DirNode then None
            else (case NewBackupRoot L fs (projectDir @ [fst f]) of
                    Inl e \<Rightarrow> None
                  | Inr root \<Rightarrow> Some root))
       files"

text \<open>
  \<open>AllBackupRoots\<close>: the heads of every project directory below \<open>snapshots\<close>, by time.
  \<open>sort.Sort\<close> is not stable; the model keeps heads of equal time in the order in
  which they were found.
\<close>

definition all_project_roots ::
  "platform \<Rightarrow> filesys \<Rightarrow> path \<Rightarrow> (string \<times> fnode) list \<Rightarrow> BackupRoot list" where
  "all_project_roots L fs searchDir params =
     concat (map (\<lambda>p. if snd p = DirNode then
                          (case os_ReadDir fs (searchDir @ [fst p]) of
                             Inl e \<Rightarrow> []
                           | Inr files \<Rightarrow> project_roots L fs (searchDir @ [fst p]) files)
                        else [])
                 params)"

definition AllBackupRoots :: "platform \<Rightarrow> Backup \<Rightarrow> filesys \<Rightarrow> error + BackupRoot list" where
  "AllBackupRoots L b fs =
     (case os_ReadDir fs (StoreSnapshots b) of
        Inl e \<Rightarrow> if e = ErrNotExist then Inr [] else Inl (OsError e)
      | Inr params \<Rightarrow> Inr (sort_key Time (all_project_roots L fs (StoreSnapshots b) params)))"


text \<open>
  Where \<open>runBackup\<close> writes the head of a new snapshot named \<open>timestamp\<close>, and what it
  writes: below the project directory, or directly below \<open>snapshots\<close> when no project
  name is set.
\<close>

definition headFile :: "Backup \<Rightarrow> string \<Rightarrow> path" where
  "headFile b timestamp =
     (if ProjectName b \<noteq> [] then StoreSnapshots b @ [ProjectName b] else StoreSnapshots b)
       @ [timestamp]"

definition write_head :: "Backup \<Rightarrow> filesys \<Rightarrow> string \<Rightarrow> string \<Rightarrow> os_error + filesys" where
  "write_head b fs timestamp h =
     (case os_MkdirAll fs (butlast (headFile b timestamp)) of
        Inl e \<Rightarrow> Inl e
      | Inr fs1 \<Rightarrow>
          (case map_of fs1 (headFile b timestamp) of
             None \<Rightarrow> Inr (AList.update (headFile b timestamp) (RegFile (h @ [LF]) 420) fs1)
           | Some n \<Rightarrow> Inl ErrPermission))"

section \<open>Reachable blobs: \<open>GetReachableBlobs\<close>\<close>

text \<open>The two maps of the traversal, as the sets of their keys.\<close>

record reach =
  reachable :: "string set"
  visitedDirs :: "string set"

text \<open>
  \<open>traverseReachable\<close> recurses through the listings of the store, which the code does
  not bound; the model counts the depth of the recursion down from \<open>fuel\<close> and reports
  \<open>OutOfFuel\<close> at 0. The depth never exceeds the number of blobs in the store by more
  than one (shown below), and \<open>GetReachableBlobs\<close> starts with that much.
\<close>

fun traverseReachable ::
    "nat \<Rightarrow> platform \<Rightarrow> Backup \<Rightarrow> filesys \<Rightarrow> string \<Rightarrow> reach \<Rightarrow> reach \<times> error option"
  and traverseReachable_loop ::
    "nat \<Rightarrow> platform \<Rightarrow> Backup \<Rightarrow> filesys \<Rightarrow> string list \<Rightarrow> reach \<Rightarrow> reach \<times> error option"
where
  "traverseReachable 0 L b fs hash st = (st, Some OutOfFuel)"
| "traverseReachable (Suc n) L b fs hash st =
     (let st1 = st\<lparr>visitedDirs := insert hash (visitedDirs st)\<rparr> in
      case os_Open fs (DataStore b hash) of
        Inl e \<Rightarrow> if e = ErrNotExist then (st1, None) else (st1, Some (OsError e))
      | Inr f \<Rightarrow>
          (case gzip_NewReader L f of
             GzHeaderError \<Rightarrow> (st1, Some GzipError)
           | GzStream gdata berr \<Rightarrow>
               (case traverseReachable_loop n L b fs (fst (scanner_lines gdata berr)) st1 of
                  (st2, Some e) \<Rightarrow> (st2, Some e)
                | (st2, None) \<Rightarrow>
                    (st2, if snd (scanner_lines gdata berr) then Some ScannerError else None))))"
| "traverseReachable_loop n L b fs [] st = (st, None)"
| "traverseReachable_loop n L b fs (line # ls) st =
     (case traverse_line line of
        None \<Rightarrow> traverseReachable_loop n L b fs ls st
      | Some (tchar, childHash) \<Rightarrow>
          (let st1 = st\<lparr>reachable := insert childHash (reachable st)\<rparr> in
           if tchar = CHR ''D'' \<and> childHash \<notin> visitedDirs st1 then
             (case traverseReachable n L b fs childHash st1 of
                (st2, Some e) \<Rightarrow> (st2, Some e)
              | (st2, None) \<Rightarrow> traverseReachable_loop n L b fs ls st2)
           else traverseReachable_loop n L b fs ls st1))"

definition markReachable ::
  "nat \<Rightarrow> platform \<Rightarrow> Backup \<Rightarrow> filesys \<Rightarrow> string \<Rightarrow> reach \<Rightarrow> reach \<times> error option" where
  "markReachable fuel L b fs hash st =
     (let st1 = st\<lparr>reachable := insert hash (reachable st)\<rparr> in
      if hash \<in> visitedDirs st1 then (st1, None)
      else traverseReachable fuel L b fs hash st1)"

fun reachable_loop ::
  "nat \<Rightarrow> platform \<Rightarrow> Backup \<Rightarrow> filesys \<Rightarrow> BackupRoot list \<Rightarrow> reach \<Rightarrow> error + string set" where
  "reachable_loop fuel L b fs [] st = Inr (reachable st)"
| "reachable_loop fuel L b fs (root # roots) st =
     (case BackupRoot_Hash fs root of
        Inl e \<Rightarrow> reachable_loop fuel L b fs roots st
      | Inr h \<Rightarrow>
          (case markReachable fuel L b fs h st of
             (st1, Some e) \<Rightarrow> Inl e
           | (st1, None) \<Rightarrow> reachable_loop fuel L b fs roots st1))"

definition traversal_fuel :: "filesys \<Rightarrow> nat" where
  "traversal_fuel fs = Suc (length fs)"

definition GetReachableBlobs :: "platform \<Rightarrow> Backup \<Rightarrow> filesys \<Rightarrow> error + string set" where
  "GetReachableBlobs L b fs =
     (case AllBackupRoots L b fs of
        Inl e \<Rightarrow> Inl e
      | Inr roots \<Rightarrow>
          reachable_loop (traversal_fuel fs) L b fs roots \<lparr> reachable = {}, visitedDirs = {} \<rparr>)"

section \<open>Unreferenced blobs and \<open>Prune\<close>\<close>

definition HasSuffix :: "string \<Rightarrow> string \<Rightarrow> bool" where
  "HasSuffix s suffix =
     (length suffix \<le> length s \<and> drop (length s - length suffix) s = suffix)"

definition TrimSuffix :: "string \<Rightarrow> string \<Rightarrow> string" where
  "TrimSuffix s suffix = (if HasSuffix s suffix then take (length s - length suffix) s else s)"

text \<open>
  \<open>GetAllBlobs\<close>. The keys of the Go map are kept as a list without repetition, in
  the order in which they were added; the code iterates over them in no fixed order.
\<close>

definition shard_blobs :: "(string \<times> fnode) list \<Rightarrow> string list \<Rightarrow> string list" where
  "shard_blobs files all =
     fold (\<lambda>f all. if HasSuffix (fst f) ''.gz''
                     then List.insert (TrimSuffix (fst f) ''.gz'') all else all)
          files all"

fun GetAllBlobs_loop ::
  "Backup \<Rightarrow> filesys \<Rightarrow> (string \<times> fnode) list \<Rightarrow> string list \<Rightarrow> error + string list" where
  "GetAllBlobs_loop b fs [] all = Inr all"
| "GetAllBlobs_loop b fs (sub # entries) all =
     (if snd sub \<noteq> DirNode then GetAllBlobs_loop b fs entries all
      else
        (case os_ReadDir fs (StoreData b @ [fst sub]) of
           Inl e \<Rightarrow> Inl (OsError e)
         | Inr files \<Rightarrow> GetAllBlobs_loop b fs entries (shard_blobs files all)))"

definition GetAllBlobs :: "Backup \<Rightarrow> filesys \<Rightarrow> error + string list" where
  "GetAllBlobs b fs =
     (case os_ReadDir fs (StoreData b) of
        Inl e \<Rightarrow> if e = ErrNotExist then Inr [] else Inl (OsError e)
      | Inr entries \<Rightarrow> GetAllBlobs_loop b fs entries [])"

definition FindUnreferenced :: "platform \<Rightarrow> Backup \<Rightarrow> filesys \<Rightarrow> error + string list" where
  "FindUnreferenced L b fs =
     (case GetReachableBlobs L b fs of
        Inl e \<Rightarrow> Inl e
      | Inr reached \<Rightarrow>
          (case GetAllBlobs b fs of
             Inl e \<Rightarrow> Inl e
           | Inr existing \<Rightarrow> Inr (filter (\<lambda>hash. hash \<notin> reached) existing)))"

record PruneStats =
  BlobsRemoved :: int
  BytesRemoved :: int

datatype prune_error = FindUnreferencedFailed error | RemoveBlobFailed string os_error

text \<open>
  The loop of \<open>Prune\<close> over the unreferenced digests, on the file system and the
  statistics so far.
\<close>

fun Prune_loop ::
  "platform \<Rightarrow> Backup \<Rightarrow> bool \<Rightarrow> string list \<Rightarrow> filesys \<times> PruneStats
     \<Rightarrow> filesys \<times> PruneStats \<times> prune_error option" where
  "Prune_loop L b dryRun [] (fs, stats) = (fs, stats, None)"
| "Prune_loop L b dryRun (hash # hs) (fs, stats) =
     (case os_Stat fs (DataStore b hash) of
        Inl e \<Rightarrow> Prune_loop L b dryRun hs (fs, stats)
      | Inr info \<Rightarrow>
          (let counted = stats\<lparr> BlobsRemoved := BlobsRemoved stats + 1,
                                BytesRemoved := BytesRemoved stats + int (fnode_size L info) \<rparr>
           in
           if \<not> dryRun then
             (case os_Remove fs (DataStore b hash) of
                Inl e \<Rightarrow> (fs, stats, Some (RemoveBlobFailed hash e))
              | Inr fs1 \<Rightarrow> Prune_loop L b dryRun hs (fs1, counted))
           else Prune_loop L b dryRun hs (fs, counted)))"

definition Prune ::
  "platform \<Rightarrow> Backup \<Rightarrow> filesys \<Rightarrow> bool \<Rightarrow> filesys \<times> PruneStats \<times> prune_error option" where
  "Prune L b fs dryRun =
     (case FindUnreferenced L b fs of
        Inl e \<Rightarrow> (fs, \<lparr> BlobsRemoved = 0, BytesRemoved = 0 \<rparr>, Some (FindUnreferencedFailed e))
      | Inr unreferenced \<Rightarrow>
          Prune_loop L b dryRun unreferenced (fs, \<lparr> BlobsRemoved = 0, BytesRemoved = 0 \<rparr>))"









text \<open>
  A source without a project name, and the store after its first backup at
  \<open>261031-120000\<close>: the blobs of the example source and the head that \<open>runBackup\<close>
  writes, directly below \<open>snapshots\<close>.
\<close>

definition ex_legacy_backup :: Backup where
  "ex_legacy_backup = ex_backup\<lparr> ProjectName := [] \<rparr>"

definition ex_store_legacy :: filesys where
  "ex_store_legacy = ex_store1 @
     [([''st'', ''snapshots''], DirNode),
      ([''st'', ''snapshots'', ''261031-120000''], RegFile (ex_dir_hash @ [LF]) 420)]"

section \<open>The integrity check: \<open>Verify\<close>\<close>





















text \<open>
  The digests a head refers to, spelled out: the children a listing names (type byte
  and digest of every line of at least 36 bytes, when the blob opens and decompresses),
  the digests traversed as directories from a set of root digests, and the closure: the
  roots and every child of a traversed directory.
\<close>

definition listing_children :: "platform \<Rightarrow> Backup \<Rightarrow> filesys \<Rightarrow> string \<Rightarrow> (char \<times> string) list" where
  "listing_children L b fs hash =
     (case os_Open fs (DataStore b hash) of
        Inl e \<Rightarrow> []
      | Inr f \<Rightarrow>
          (case gzip_NewReader L f of
             GzHeaderError \<Rightarrow> []
           | GzStream gdata berr \<Rightarrow>
               List.map_filter traverse_line (fst (scanner_lines gdata berr))))"

inductive_set listed_dirs :: "platform \<Rightarrow> Backup \<Rightarrow> filesys \<Rightarrow> string set \<Rightarrow> string set"
  for L :: platform and b :: Backup and fs :: filesys and R :: "string set"
where
  root: "h \<in> R \<Longrightarrow> h \<in> listed_dirs L b fs R"
| child: "d \<in> listed_dirs L b fs R \<Longrightarrow> (CHR ''D'', c) \<in> set (listing_children L b fs d)
            \<Longrightarrow> c \<in> listed_dirs L b fs R"

definition closure_of :: "platform \<Rightarrow> Backup \<Rightarrow> filesys \<Rightarrow> string set \<Rightarrow> string set" where
  "closure_of L b fs R =
     R \<union> {c. \<exists>d \<in> listed_dirs L b fs R. \<exists>t. (t, c) \<in> set (listing_children L b fs d)}"

definition root_digests :: "filesys \<Rightarrow> BackupRoot list \<Rightarrow> string set" where
  "root_digests fs roots = {h. \<exists>r \<in> set roots. BackupRoot_Hash fs r = Inr h}"

text \<open>
  During the traversal: every visited directory that is not in progress (not in \<open>S\<close>)
  has all its children marked, and its directory children visited.
\<close>

definition reach_closed :: "platform \<Rightarrow> Backup \<Rightarrow> filesys \<Rightarrow> string set \<Rightarrow> reach \<Rightarrow> bool" where
  "reach_closed L b fs S st =
     (\<forall>d \<in> visitedDirs st - S. \<forall>tc \<in> set (listing_children L b fs d).
        snd tc \<in> reachable st \<and> (fst tc = CHR ''D'' \<longrightarrow> snd tc \<in> visitedDirs st))"

section \<open>Verification\<close>

subsection \<open>Evaluation\<close>

text \<open>
  For evaluation by rewriting, the bound of the scanner is compared with the length of
  the line as integers in binary rather than as unary natural numbers.
\<close>

lemma ScanLines_code [code]:
  "ScanLines cur [] =
     (if cur = [] then ([], False)
      else if (65536 :: int) \<le> int (length cur) then ([], True)
      else ([dropCR cur], False))"
  "ScanLines cur (c # cs) =
     (if c = LF then
        (if (65536 :: int) \<le> int (length cur) then ([], True)
         else (case ScanLines [] cs of (ls, e) \<Rightarrow> (dropCR cur # ls, e)))
      else ScanLines (cur @ [c]) cs)"
  by (simp_all add: MaxScanTokenSize_def)

subsection \<open>The directory listing parser\<close>












subsection \<open>The ignore decision\<close>

lemma match_loop_step:
  "match_loop L ps rel isDir (Suc i) =
     (if pattern_hits L (ps ! i) rel isDir
      then Some (\<not> isNegation (ps ! i), Some (ps ! i))
      else match_loop L ps rel isDir i)"
  by (auto simp: pattern_hits_def globMatch_def Let_def)

lemma match_loop_none:
  "(\<forall>j<i. \<not> pattern_hits L (ps ! j) rel isDir) \<Longrightarrow> match_loop L ps rel isDir i = None"
proof (induction i)
  case 0
  show ?case by simp
next
  case (Suc i)
  then show ?case by (simp only: match_loop_step) auto
qed

lemma match_loop_last:
  "k < i \<Longrightarrow> pattern_hits L (ps ! k) rel isDir \<Longrightarrow>
   (\<forall>j. k < j \<and> j < i \<longrightarrow> \<not> pattern_hits L (ps ! j) rel isDir) \<Longrightarrow>
   match_loop L ps rel isDir i = Some (\<not> isNegation (ps ! k), Some (ps ! k))"
proof (induction i)
  case 0
  then show ?case by simp
next
  case (Suc i)
  show ?case
  proof (cases "k = i")
    case True
    then show ?thesis using Suc.prems(2) by (simp only: match_loop_step) simp
  next
    case False
    then have ki: "k < i" using Suc.prems(1) by simp
    have nohit: "\<not> pattern_hits L (ps ! i) rel isDir" using Suc.prems(3) ki by simp
    have "match_loop L ps rel isDir i = Some (\<not> isNegation (ps ! k), Some (ps ! k))"
      using Suc.IH[OF ki Suc.prems(2)] Suc.prems(3) by simp
    then show ?thesis using nohit by (simp only: match_loop_step) simp
  qed
qed

text \<open>
  Claim C5. \<open>Match\<close> scans the patterns of the matcher from the last to the first, so
  the last pattern in file order that matches decides: a positive pattern ignores, a
  negation includes, and the scan stops there. When no pattern of the matcher matches,
  the decision is the parent's, and without a parent the candidate is included.
\<close>

theorem Match_last_pattern_wins:
  "(k < length ps \<and> pattern_hits L (ps ! k) (filepath_Rel d fullPath) isDir \<and>
    (\<forall>j. k < j \<and> j < length ps \<longrightarrow> \<not> pattern_hits L (ps ! j) (filepath_Rel d fullPath) isDir)
      \<longrightarrow> Match L (IgnoreMatcher ps par d) fullPath isDir = (\<not> isNegation (ps ! k), Some (ps ! k)))
   \<and> ((\<forall>p\<in>set ps. \<not> pattern_hits L p (filepath_Rel d fullPath) isDir)
      \<longrightarrow> Match L (IgnoreMatcher ps par d) fullPath isDir =
          (case par of Some m \<Rightarrow> Match L m fullPath isDir | None \<Rightarrow> (False, None)))"
proof (intro conjI impI)
  assume a: "k < length ps \<and> pattern_hits L (ps ! k) (filepath_Rel d fullPath) isDir \<and>
    (\<forall>j. k < j \<and> j < length ps \<longrightarrow> \<not> pattern_hits L (ps ! j) (filepath_Rel d fullPath) isDir)"
  then have "match_loop L ps (filepath_Rel d fullPath) isDir (length ps) =
      Some (\<not> isNegation (ps ! k), Some (ps ! k))"
    by (intro match_loop_last) auto
  then show "Match L (IgnoreMatcher ps par d) fullPath isDir = (\<not> isNegation (ps ! k), Some (ps ! k))"
    by simp
next
  assume "\<forall>p\<in>set ps. \<not> pattern_hits L p (filepath_Rel d fullPath) isDir"
  then have "match_loop L ps (filepath_Rel d fullPath) isDir (length ps) = None"
    by (intro match_loop_none) auto
  then show "Match L (IgnoreMatcher ps par d) fullPath isDir =
          (case par of Some m \<Rightarrow> Match L m fullPath isDir | None \<Rightarrow> (False, None))"
    by simp
qed

theorem Match_last_pattern_wins_witness:
  "Match toy (IgnoreMatcher [ex_pat ''a.log'' False, ex_pat ''a.log'' True] None [''src''])
      [''src'', ''a.log''] False = (False, Some (ex_pat ''a.log'' True))
   \<and> Match toy (IgnoreMatcher [ex_pat ''a.log'' True, ex_pat ''a.log'' False] None [''src''])
      [''src'', ''a.log''] False = (True, Some (ex_pat ''a.log'' False))
   \<and> Match toy
        (IgnoreMatcher [] (Some (IgnoreMatcher [ex_pat ''a.log'' False] None [''src'']))
           [''src'', ''sub''])
        [''src'', ''sub'', ''a.log''] False = (True, Some (ex_pat ''a.log'' False))
   \<and> Match toy (IgnoreMatcher [ex_pat ''b'' False] None [''src'']) [''src'', ''a.log''] False =
       (False, None)"
proof -
  have 1: "Match toy (IgnoreMatcher [ex_pat ''a.log'' False, ex_pat ''a.log'' True] None [''src''])
      [''src'', ''a.log''] False = (False, Some (ex_pat ''a.log'' True))"
    using Match_last_pattern_wins[of 1 "[ex_pat ''a.log'' False, ex_pat ''a.log'' True]" toy
        "[''src'']" "[''src'', ''a.log'']" False None]
    by (auto simp: pattern_hits_def toy_def ex_pat_def filepath_Rel_def Base_def globMatch_def
        Let_def)
  have 2: "Match toy (IgnoreMatcher [ex_pat ''a.log'' True, ex_pat ''a.log'' False] None [''src''])
      [''src'', ''a.log''] False = (True, Some (ex_pat ''a.log'' False))"
    using Match_last_pattern_wins[of 1 "[ex_pat ''a.log'' True, ex_pat ''a.log'' False]" toy
        "[''src'']" "[''src'', ''a.log'']" False None]
    by (auto simp: pattern_hits_def toy_def ex_pat_def filepath_Rel_def Base_def globMatch_def
        Let_def)
  have 3: "Match toy (IgnoreMatcher [ex_pat ''a.log'' False] None [''src''])
      [''src'', ''sub'', ''a.log''] False = (True, Some (ex_pat ''a.log'' False))"
    using Match_last_pattern_wins[of 0 "[ex_pat ''a.log'' False]" toy
        "[''src'']" "[''src'', ''sub'', ''a.log'']" False None]
    by (auto simp: pattern_hits_def toy_def ex_pat_def filepath_Rel_def Base_def globMatch_def
        Let_def)
  have 4: "Match toy
        (IgnoreMatcher [] (Some (IgnoreMatcher [ex_pat ''a.log'' False] None [''src'']))
           [''src'', ''sub''])
        [''src'', ''sub'', ''a.log''] False =
      Match toy (IgnoreMatcher [ex_pat ''a.log'' False] None [''src''])
        [''src'', ''sub'', ''a.log''] False"
    using Match_last_pattern_wins[of 0 "[]" toy "[''src'', ''sub'']"
        "[''src'', ''sub'', ''a.log'']" False
        "Some (IgnoreMatcher [ex_pat ''a.log'' False] None [''src''])"]
    by simp
  have 5: "Match toy (IgnoreMatcher [ex_pat ''b'' False] None [''src'']) [''src'', ''a.log''] False =
       (False, None)"
    using Match_last_pattern_wins[of 0 "[ex_pat ''b'' False]" toy "[''src'']"
        "[''src'', ''a.log'']" False None]
    by (auto simp: pattern_hits_def toy_def ex_pat_def filepath_Rel_def Base_def globMatch_def
        Let_def)
  show ?thesis using 1 2 3 4 5 by simp
qed

subsection \<open>The order of the checks in \<open>scan\<close>\<close>

lemma Base_snoc: "Base (p @ [name]) = name"
  by (simp add: Base_def)

text \<open>
  Claim C6, as amended. For every child of a directory, \<open>scan\<close> first asks the ignore
  chain: an ignored child is recorded as ignored and passed over, whatever its name.
  Then a symbolic link becomes a link entry whose digest is the hash of the bytes of
  its target, whatever its name. Only then is a child named \<open>.backup\<close> passed over: it
  is skipped when it is neither ignored nor a symbolic link.
\<close>

theorem scan_child_order:
  "(fst (Match L m (p @ [name]) (IsDir f)) \<longrightarrow>
      scan_loop L FH p m ((name, f) # files) entries ignored =
      scan_loop L FH p m files entries
        (ignored @ [IgnoredEntry (p @ [name]) name (snd (Match L m (p @ [name]) (IsDir f)))]))
   \<and> (\<not> fst (Match L m (p @ [name]) (IsDir f)) \<and> f = Symlink t \<longrightarrow>
      scan_loop L FH p m ((name, f) # files) entries ignored =
      scan_loop L FH p m files
        (entries @ [LinkEntry (p @ [name]) name t (md5hex L t)]) ignored)
   \<and> (\<not> fst (Match L m (p @ [name]) (IsDir f)) \<and> \<not> IsSymlink f \<and> name = ''.backup'' \<longrightarrow>
      scan_loop L FH p m ((name, f) # files) entries ignored =
      scan_loop L FH p m files entries ignored)"
  by (auto simp: Let_def IsDir_def IsSymlink_def NewLinkEntry_def Readlink_def Base_snoc)

theorem scan_child_order_witness:
  "scan_loop toy ex_FileHash [''src''] (IgnoreMatcher [ex_pat ''.backup'' False] None [''src''])
      [(''.backup'', Dir True [])] [] [] =
     (None, [], [IgnoredEntry [''src'', ''.backup''] ''.backup'' (Some (ex_pat ''.backup'' False))])
   \<and> scan_loop toy ex_FileHash [''src''] (IgnoreMatcher [] None [''src''])
      [(''ln'', Symlink ''cfg'')] [] [] =
     (None, [LinkEntry [''src'', ''ln''] ''ln'' ''cfg'' (toy_md5 ''cfg'')], [])
   \<and> scan_loop toy ex_FileHash [''src''] (IgnoreMatcher [] None [''src''])
      [(''.backup'', Dir True [(''config.toml'', File ''x'')])] [] [] = (None, [], [])"
proof -
  have 1: "scan_loop toy ex_FileHash [''src''] (IgnoreMatcher [ex_pat ''.backup'' False] None [''src''])
      [(''.backup'', Dir True [])] [] [] =
     (None, [], [IgnoredEntry [''src'', ''.backup''] ''.backup'' (Some (ex_pat ''.backup'' False))])"
    using scan_child_order[of toy "IgnoreMatcher [ex_pat ''.backup'' False] None [''src'']"
        "[''src'']" "''.backup''" "Dir True []" ex_FileHash "[]" "[]" "[]"]
    by (simp add: IsDir_def toy_def filepath_Rel_def globMatch_def ex_pat_def Base_def)
  have 2: "scan_loop toy ex_FileHash [''src''] (IgnoreMatcher [] None [''src''])
      [(''ln'', Symlink ''cfg'')] [] [] =
     (None, [LinkEntry [''src'', ''ln''] ''ln'' ''cfg'' (toy_md5 ''cfg'')], [])"
    using scan_child_order[of toy "IgnoreMatcher [] None [''src'']"
        "[''src'']" "''ln''" "Symlink ''cfg''" ex_FileHash "[]" "[]" "[]" "''cfg''"]
    by (simp add: IsDir_def toy_def)
  have 3: "scan_loop toy ex_FileHash [''src''] (IgnoreMatcher [] None [''src''])
      [(''.backup'', Dir True [(''config.toml'', File ''x'')])] [] [] = (None, [], [])"
    using scan_child_order[of toy "IgnoreMatcher [] None [''src'']"
        "[''src'']" "''.backup''" "Dir True [(''config.toml'', File ''x'')]" ex_FileHash "[]" "[]" "[]"]
    by (simp add: IsDir_def IsSymlink_def)
  show ?thesis using 1 2 3 by simp
qed

text \<open>
  Claim C6 as stated fails: a symbolic link named \<open>.backup\<close> is archived as a link
  entry, and a directory named \<open>.backup\<close> that an ignore pattern matches is recorded as
  ignored (the ignore chain is asked before the name is looked at).
\<close>

theorem dot_backup_not_skipped_first:
  "NewDirectoryEntry toy ex_FileHash [''src''] None (Dir True [(''.backup'', Symlink ''cfg'')]) =
     DirectoryEntry [''src''] ''src'' None
       [LinkEntry [''src'', ''.backup''] ''.backup'' ''cfg'' (toy_md5 ''cfg'')] []
   \<and> NewDirectoryEntry toy ex_FileHash [''src''] None
       (Dir True [(''.backup'', Dir True []), (''.gitignore'', File ''.backup'')]) =
     DirectoryEntry [''src''] ''src'' None
       [FileEntry [''src'', ''.gitignore''] ''.gitignore'' (toy_md5 ''.gitignore'')]
       [IgnoredEntry [''src'', ''.backup''] ''.backup'' (Some (ex_pat ''.backup'' False))]"
  by (simp add: Let_def IsDir_def IsSymlink_def NewLinkEntry_def Readlink_def Base_def
      NewIgnoreMatcher_def loadFile_def scanner_lines_def loadFile_step_def TrimSpace_def
      is_space_def LF_def CR_def SP_def dropCR_def MaxScanTokenSize_def toy_def
      filepath_Rel_def globMatch_def ex_pat_def NewFileEntry_def ex_FileHash_def)

subsection \<open>A directory that cannot be read\<close>

text \<open>
  Claim C10. When \<open>os.ReadDir\<close> fails on a source directory, \<open>scan\<close> returns no error
  and no children: the entry of the directory is the entry of an empty directory, its
  listing is the empty text and its digest the hash of the empty text, so everything
  the backup does with it is what it does with an empty directory.
\<close>

theorem unreadable_directory_is_empty:
  "ReadDir d = Inl err \<Longrightarrow>
     NewDirectoryEntry L FH p par d = DirectoryEntry p (Base p) None [] []
     \<and> NewDirectoryEntry L FH p par d = NewDirectoryEntry L FH p par (Dir True [])
     \<and> e_scan_err (NewDirectoryEntry L FH p par d) = None
     \<and> ContentAsText L (NewDirectoryEntry L FH p par d) = Inr []
     \<and> Hash L (NewDirectoryEntry L FH p par d) = Inr (md5hex L [])"
  by (cases d) (auto simp: ReadDir_def ContentAsText_def split: if_splits)

theorem unreadable_directory_is_empty_witness:
  "ReadDir (Dir False [(''f'', File ''x'')]) = Inl ErrPermission
   \<and> NewDirectoryEntry toy ex_FileHash [''src'', ''locked''] None (Dir False [(''f'', File ''x'')]) =
       DirectoryEntry [''src'', ''locked''] ''locked'' None [] []
   \<and> Hash toy (NewDirectoryEntry toy ex_FileHash [''src'', ''locked''] None
        (Dir False [(''f'', File ''x'')])) = Inr (toy_md5 [])"
proof -
  have r: "ReadDir (Dir False [(''f'', File ''x'')]) = Inl ErrPermission"
    by (simp add: ReadDir_def)
  show ?thesis
    using r unreadable_directory_is_empty[OF r, of toy ex_FileHash "[''src'', ''locked'']" None]
    by (simp add: Base_def toy_def)
qed

subsection \<open>Sorted listings and their serialization\<close>

lemma type_int_inj: "type_int a = type_int b \<longleftrightarrow> a = b"
  by (cases a; cases b) auto

lemma Less_iff_key: "Less L a b \<longleftrightarrow> entry_key L a < entry_key L b"
proof (cases "Type a = Type b")
  case True
  then show ?thesis by (auto simp: Less_def entry_key_def Let_def)
next
  case False
  then have "type_int (Type a) \<noteq> type_int (Type b)" by (simp add: type_int_inj)
  then show ?thesis using False by (auto simp: Less_def entry_key_def)
qed

lemma set_sort_insert: "set (sort_insert L x ys) = insert x (set ys)"
  by (induction ys) auto

lemma sorted_sort_insert:
  "sorted (map (entry_key L) ys) \<Longrightarrow> sorted (map (entry_key L) (sort_insert L x ys))"
proof (induction ys)
  case Nil
  show ?case by simp
next
  case (Cons y ys)
  show ?case
  proof (cases "Less L x y")
    case True
    then have "entry_key L x \<le> entry_key L y" by (simp add: Less_iff_key)
    then show ?thesis using True Cons.prems by auto
  next
    case False
    then have yx: "entry_key L y \<le> entry_key L x" by (simp add: Less_iff_key)
    have "sorted (map (entry_key L) (sort_insert L x ys))" using Cons by simp
    then show ?thesis using False yx Cons.prems by (auto simp: set_sort_insert)
  qed
qed

lemma sorted_sort_Sort: "sorted (map (entry_key L) (sort_Sort L es))"
  by (induction es) (auto intro: sorted_sort_insert)

lemma mset_sort_insert: "mset (sort_insert L x ys) = add_mset x (mset ys)"
  by (induction ys) auto

lemma mset_sort_Sort: "mset (sort_Sort L es) = mset es"
  by (induction es) (auto simp: mset_sort_insert)

lemma scan_loop_sorted:
  "scan_loop L FH p m files entries ignored = (None, cs, ig) \<Longrightarrow> \<exists>es. cs = sort_Sort L es"
proof (induction files arbitrary: entries ignored)
  case Nil
  then show ?case by auto
next
  case (Cons f files)
  obtain name n where f: "f = (name, n)" by (cases f)
  show ?case using Cons.prems Cons.IH unfolding f
    by (auto simp: Let_def split: if_splits sum.splits)
qed

lemma scan_loop_err:
  "scan_loop L FH p m files entries ignored = (Some e, cs, ig) \<Longrightarrow> cs = []"
proof (induction files arbitrary: entries ignored)
  case Nil
  then show ?case by auto
next
  case (Cons f files)
  obtain name n where f: "f = (name, n)" by (cases f)
  show ?case using Cons.prems Cons.IH unfolding f
    by (auto simp: Let_def split: if_splits sum.splits)
qed

lemma NewDirectoryEntry_sorted:
  "sorted (map (entry_key L) (e_content (NewDirectoryEntry L FH p par d)))"
proof (cases d)
  case (Dir r cs)
  show ?thesis
  proof (cases r)
    case False
    then show ?thesis using Dir by simp
  next
    case True
    obtain err es ig where s: "scan_loop L FH p (NewIgnoreMatcher p par (Dir r cs)) cs [] [] = (err, es, ig)"
      by (cases "scan_loop L FH p (NewIgnoreMatcher p par (Dir r cs)) cs [] []")
    show ?thesis
    proof (cases err)
      case None
      then obtain xs where "es = sort_Sort L xs" using s scan_loop_sorted by blast
      then show ?thesis using Dir True s by (simp add: sorted_sort_Sort)
    next
      case (Some e)
      then have "es = []" using s scan_loop_err by blast
      then show ?thesis using Dir True s by simp
    qed
  qed
qed simp_all

lemma text_loop_concat:
  "text_loop L cs sb = Inr content \<Longrightarrow> content = sb @ concat (map (entry_line L) cs)"
proof (induction cs arbitrary: sb)
  case Nil
  then show ?case by simp
next
  case (Cons c cs)
  from Cons.prems obtain h where h: "Hash L c = Inr h"
    by (auto split: sum.splits)
  with Cons.prems have "text_loop L cs (sb @ typeChar c # SP # h @ SP # Name c @ [LF]) = Inr content"
    by simp
  from Cons.IH[OF this] h show ?case by (simp add: entry_line_def hash_or_empty_def)
qed

lemma ScanLines_line:
  "LF \<notin> set l \<Longrightarrow> ScanLines cur (l @ LF # rest) =
     (if MaxScanTokenSize \<le> length (cur @ l) then ([], True)
      else (case ScanLines [] rest of (ls, e) \<Rightarrow> (dropCR (cur @ l) # ls, e)))"
  by (induction l arbitrary: cur) auto

lemma ScanLines_lines:
  "\<forall>l\<in>set ls. LF \<notin> set l \<and> length l < MaxScanTokenSize \<Longrightarrow>
   ScanLines [] (concat (map (\<lambda>l. l @ [LF]) ls)) = (map dropCR ls, False)"
proof (induction ls)
  case Nil
  show ?case by simp
next
  case (Cons l ls)
  have "ScanLines [] (l @ LF # concat (map (\<lambda>l. l @ [LF]) ls)) =
      (case ScanLines [] (concat (map (\<lambda>l. l @ [LF]) ls)) of (ls, e) \<Rightarrow> (dropCR l # ls, e))"
    using Cons.prems ScanLines_line[of l "[]"] by simp
  then show ?case using Cons by simp
qed

lemma update_absent: "k \<notin> fst ` set al \<Longrightarrow> AList.update k v al = al @ [(k, v)]"
  by (induction al) auto

lemma entries_step_composed:
  assumes "length d = 32" and "n \<noteq> []"
  shows "entries_step (t # SP # d @ SP # n) (m, ws) =
        (case entry_of_tag t d n of
           Some e \<Rightarrow> (AList.update n e m, ws)
         | None \<Rightarrow> (m, ws @ [UnknownEntryType t]))"
proof -
  let ?l = "t # SP # d @ SP # n"
  have 1: "?l ! 1 = SP" by simp
  have 34: "?l ! 34 = SP" using assms by (simp add: nth_append)
  have len: "\<not> length ?l < 36" using assms by (cases n) auto
  have h: "take 32 (drop 2 ?l) = d" using assms by simp
  have nm: "drop 35 ?l = n" using assms by simp
  have t0: "?l ! 0 = t" by simp
  show ?thesis
    unfolding entries_step_def Let_def h nm t0 using 1 34 len
    by (simp add: entry_of_tag_def)
qed

lemma entry_line_line0: "entry_line L c = line0 L c @ [LF]"
  by (simp add: entry_line_def line0_def)

lemma entry_of_tag_typeChar: "entry_of_tag (typeChar c) (hash_or_empty L c) (Name c) = Some (be_of L c)"
  by (cases "Type c") (auto simp: entry_of_tag_def typeChar_def be_of_def)

lemma entries_step_line0:
  "digest_shaped (hash_or_empty L c) \<Longrightarrow> line_safe_name (Name c) \<Longrightarrow>
   entries_step (line0 L c) (m, ws) = (AList.update (Name c) (be_of L c) m, ws)"
  unfolding line0_def
  using entries_step_composed[of "hash_or_empty L c" "Name c" "typeChar c" m ws]
  by (simp add: digest_shaped_def line_safe_name_def entry_of_tag_typeChar)

lemma fold_entries_step_lines:
  "distinct (map Name cs) \<Longrightarrow> set (map Name cs) \<inter> fst ` set m = {} \<Longrightarrow>
   \<forall>c\<in>set cs. digest_shaped (hash_or_empty L c) \<and> line_safe_name (Name c) \<Longrightarrow>
   fold entries_step (map (line0 L) cs) (m, ws) = (m @ map (\<lambda>c. (Name c, be_of L c)) cs, ws)"
proof (induction cs arbitrary: m)
  case Nil
  show ?case by simp
next
  case (Cons c cs)
  have abs: "Name c \<notin> fst ` set m" using Cons.prems(2) by auto
  have step: "entries_step (line0 L c) (m, ws) = (m @ [(Name c, be_of L c)], ws)"
    using Cons.prems(3) abs by (simp add: entries_step_line0 update_absent)
  have d: "distinct (map Name cs)" using Cons.prems(1) by simp
  have disj: "set (map Name cs) \<inter> fst ` set (m @ [(Name c, be_of L c)]) = {}"
    using Cons.prems(1,2) by auto
  have "fold entries_step (map (line0 L) cs) (m @ [(Name c, be_of L c)], ws) =
      ((m @ [(Name c, be_of L c)]) @ map (\<lambda>c. (Name c, be_of L c)) cs, ws)"
    using Cons.IH[OF d disj] Cons.prems(3) by simp
  then show ?case using step by simp
qed

lemma line0_props:
  assumes "digest_shaped (hash_or_empty L c)" and "line_safe_name (Name c)"
  shows "LF \<notin> set (line0 L c)" and "length (line0 L c) < MaxScanTokenSize"
    and "dropCR (line0 L c) = line0 L c"
proof -
  have tc: "typeChar c \<noteq> LF" by (simp add: typeChar_def LF_def)
  show "LF \<notin> set (line0 L c)"
    using assms tc by (auto simp: line0_def digest_shaped_def line_safe_name_def SP_def LF_def)
  show "length (line0 L c) < MaxScanTokenSize"
    using assms by (simp add: line0_def digest_shaped_def line_safe_name_def MaxScanTokenSize_def)
  have "last (line0 L c) = last (Name c)" using assms by (simp add: line0_def line_safe_name_def)
  then show "dropCR (line0 L c) = line0 L c"
    using assms by (simp add: dropCR_def line_safe_name_def)
qed

lemma be_key_be_of: "be_key (be_of L c) = entry_key L c"
  by (cases "Type c") (auto simp: be_key_def be_of_def entry_key_def)

lemma be_line_be_of: "be_line (be_of L c) = entry_line L c"
  by (cases "Type c") (auto simp: be_line_def be_of_def entry_line_def typeChar_def)

lemma listing_round_trip:
  assumes sorted: "sorted (map (entry_key L) cs)"
    and dist: "distinct (map Name cs)"
    and ok: "\<forall>c\<in>set cs. digest_shaped (hash_or_empty L c) \<and> line_safe_name (Name c)"
  shows "reserialize (read_back (concat (map (entry_line L) cs))) = concat (map (entry_line L) cs)"
proof -
  have tx: "concat (map (entry_line L) cs) = concat (map (\<lambda>l. l @ [LF]) (map (line0 L) cs))"
  proof -
    have "entry_line L = (\<lambda>c. line0 L c @ [LF])" by (rule ext) (rule entry_line_line0)
    then show ?thesis by (simp add: comp_def)
  qed
  have "\<forall>l\<in>set (map (line0 L) cs). LF \<notin> set l \<and> length l < MaxScanTokenSize"
    using ok line0_props by auto
  then have "ScanLines [] (concat (map (entry_line L) cs)) = (map dropCR (map (line0 L) cs), False)"
    unfolding tx by (rule ScanLines_lines)
  moreover have "map dropCR (map (line0 L) cs) = map (line0 L) cs"
    using ok line0_props(3) by (induction cs) auto
  ultimately have lines: "scanner_lines (concat (map (entry_line L) cs)) False = (map (line0 L) cs, False)"
    by (simp add: scanner_lines_def)
  have "entries_loop (map (line0 L) cs) ([], []) = ([] @ map (\<lambda>c. (Name c, be_of L c)) cs, [])"
    unfolding entries_loop_def using dist ok by (intro fold_entries_step_lines) auto
  then have rb: "read_back (concat (map (entry_line L) cs)) = map (\<lambda>c. (Name c, be_of L c)) cs"
    using lines by (simp add: read_back_def)
  have "sorted (map be_key (map (be_of L) cs))"
    using sorted by (simp add: comp_def be_key_be_of)
  then have "sort_key be_key (map (be_of L) cs) = map (be_of L) cs"
    by (rule sort_key_id_if_sorted)
  then show ?thesis
    unfolding rb reserialize_def by (simp add: comp_def be_line_be_of)
qed

lemma NewDirectoryEntry_is_dir:
  "\<exists>se cs ig. NewDirectoryEntry L FH p par d = DirectoryEntry p (Base p) se cs ig"
  by (cases d) (auto split: prod.splits)

lemma text_loop_hashes:
  "text_loop L cs sb = Inr content \<Longrightarrow> \<forall>c\<in>set cs. Hash L c = Inr (hash_or_empty L c)"
proof (induction cs arbitrary: sb)
  case Nil
  show ?case by simp
next
  case (Cons c cs)
  from Cons.prems obtain h where h: "Hash L c = Inr h"
    by (auto split: sum.splits)
  with Cons.prems have "text_loop L cs (sb @ typeChar c # SP # h @ SP # Name c @ [LF]) = Inr content"
    by simp
  from Cons.IH[OF this] h show ?case by (simp add: hash_or_empty_def)
qed

text \<open>
  Claim C3, as amended. The children of every directory the builder serializes are
  sorted by (type, digest, name), with file 0, directory 1 and link 2; the payload is
  the concatenation of the lines \<open>T SP digest SP name LF\<close> of the children in that
  order; the digest of the directory is the hash of that text; and when the names of the
  children are distinct, not empty, free of line feeds, do not end in a carriage return,
  and the digests have 32 bytes, reading the payload back and serializing the entries
  again gives the same bytes.
\<close>

theorem listing_sorted_and_canonical:
  assumes "ContentAsText L (NewDirectoryEntry L FH p par d) = Inr content"
  shows "sorted (map (entry_key L) (e_content (NewDirectoryEntry L FH p par d)))
    \<and> (\<forall>c\<in>set (e_content (NewDirectoryEntry L FH p par d)). Hash L c = Inr (hash_or_empty L c))
    \<and> content = concat (map (entry_line L) (e_content (NewDirectoryEntry L FH p par d)))
    \<and> Hash L (NewDirectoryEntry L FH p par d) = Inr (md5hex L content)
    \<and> (distinct (map Name (e_content (NewDirectoryEntry L FH p par d))) \<and>
        (\<forall>c\<in>set (e_content (NewDirectoryEntry L FH p par d)).
            digest_shaped (hash_or_empty L c) \<and> line_safe_name (Name c))
        \<longrightarrow> reserialize (read_back content) = content)"
proof -
  obtain se cs ig where e: "NewDirectoryEntry L FH p par d = DirectoryEntry p (Base p) se cs ig"
    using NewDirectoryEntry_is_dir by blast
  from assms e have se: "se = None" and tl: "text_loop L cs [] = Inr content"
    by (auto simp: ContentAsText_def split: option.splits)
  have s: "sorted (map (entry_key L) cs)"
    using NewDirectoryEntry_sorted[of L FH p par d] e by simp
  have c: "content = concat (map (entry_line L) cs)"
    using text_loop_concat[OF tl] by simp
  have h: "\<forall>c\<in>set cs. Hash L c = Inr (hash_or_empty L c)"
    using text_loop_hashes[OF tl] .
  have hh: "Hash L (DirectoryEntry p (Base p) se cs ig) = Inr (md5hex L content)"
    using se tl by simp
  have rt: "distinct (map Name cs) \<and>
        (\<forall>c\<in>set cs. digest_shaped (hash_or_empty L c) \<and> line_safe_name (Name c))
        \<longrightarrow> reserialize (read_back content) = content"
    unfolding c using listing_round_trip[OF s] by blast
  show ?thesis unfolding e using s c h hh rt by simp
qed

lemma exd_entry:
  "NewDirectoryEntry toy ex_const_FileHash [''src''] None (Dir True [(''a.txt'', File ''hi''), (''sub'', Dir True [])])
   = DirectoryEntry [''src''] ''src'' None
       [FileEntry [''src'', ''a.txt''] ''a.txt'' ex_digest,
        DirectoryEntry [''src'', ''sub''] ''sub'' None [] []] []"
  by (simp add: Let_def IsDir_def IsSymlink_def Base_def NewIgnoreMatcher_def NewFileEntry_def
      ex_const_FileHash_def Less_def)

text \<open>
  Claim C3 as stated fails on a file whose name holds a line feed (the line format has no
  escape): the reader sees two lines, keeps the first with a shortened name and warns
  about the second, so serializing again gives other bytes.
\<close>

theorem listing_not_canonical_for_newline_names:
  "ContentAsText toy
     (NewDirectoryEntry toy ex_const_FileHash [''src''] None
        (Dir True [(''a'' @ [LF] @ ''b'', File ''hi'')])) =
     Inr (''F 0123456789abcdef0123456789abcdef a'' @ [LF] @ ''b'' @ [LF])
   \<and> reserialize (read_back (''F 0123456789abcdef0123456789abcdef a'' @ [LF] @ ''b'' @ [LF])) =
       ''F 0123456789abcdef0123456789abcdef a'' @ [LF]
   \<and> reserialize (read_back (''F 0123456789abcdef0123456789abcdef a'' @ [LF] @ ''b'' @ [LF])) \<noteq>
       ''F 0123456789abcdef0123456789abcdef a'' @ [LF] @ ''b'' @ [LF]"
  by (simp add: Let_def IsDir_def IsSymlink_def Base_def NewIgnoreMatcher_def NewFileEntry_def
      ex_const_FileHash_def ex_digest_def ContentAsText_def typeChar_def Name_def SP_def LF_def CR_def
      reserialize_def read_back_def scanner_lines_def dropCR_def MaxScanTokenSize_def
      entries_loop_def entries_step_def be_line_def)

theorem listing_sorted_and_canonical_witness:
  "ContentAsText toy
     (NewDirectoryEntry toy ex_const_FileHash [''src''] None
        (Dir True [(''a.txt'', File ''hi''), (''sub'', Dir True [])])) =
     Inr (''F 0123456789abcdef0123456789abcdef a.txt'' @ [LF] @
          ''D 00000000000000000000000000000000 sub'' @ [LF])
   \<and> Hash toy
     (NewDirectoryEntry toy ex_const_FileHash [''src''] None
        (Dir True [(''a.txt'', File ''hi''), (''sub'', Dir True [])])) =
     Inr (toy_md5 (''F 0123456789abcdef0123456789abcdef a.txt'' @ [LF] @
          ''D 00000000000000000000000000000000 sub'' @ [LF]))
   \<and> reserialize (read_back (''F 0123456789abcdef0123456789abcdef a.txt'' @ [LF] @
          ''D 00000000000000000000000000000000 sub'' @ [LF])) =
     ''F 0123456789abcdef0123456789abcdef a.txt'' @ [LF] @
          ''D 00000000000000000000000000000000 sub'' @ [LF]"
proof -
  let ?d = "Dir True [(''a.txt'', File ''hi''), (''sub'', Dir True [])]"
  let ?T = "''F 0123456789abcdef0123456789abcdef a.txt'' @ [LF] @
          ''D 00000000000000000000000000000000 sub'' @ [LF]"
  have z: "replicate 32 (CHR ''0'') = ''00000000000000000000000000000000''"
    by code_simp
  have c: "ContentAsText toy (NewDirectoryEntry toy ex_const_FileHash [''src''] None ?d) = Inr ?T"
    unfolding exd_entry
    by (simp add: ContentAsText_def typeChar_def Name_def SP_def ex_digest_def toy_def
        toy_md5_def z)
  have k: "distinct (map Name (e_content (NewDirectoryEntry toy ex_const_FileHash [''src''] None ?d)))
     \<and> (\<forall>c\<in>set (e_content (NewDirectoryEntry toy ex_const_FileHash [''src''] None ?d)).
            digest_shaped (hash_or_empty toy c) \<and> line_safe_name (Name c))"
    unfolding exd_entry
    by (simp add: Name_def digest_shaped_def line_safe_name_def hash_or_empty_def
        ex_digest_def toy_def toy_md5_def LF_def CR_def)
  have rt: "reserialize (read_back ?T) = ?T"
    using listing_sorted_and_canonical[OF c] k by blast
  have "Hash toy (NewDirectoryEntry toy ex_const_FileHash [''src''] None ?d) = Inr (md5hex toy ?T)"
    using listing_sorted_and_canonical[OF c] by blast
  moreover have "md5hex toy ?T = toy_md5 ?T" by (simp add: toy_def)
  ultimately show ?thesis using c rt by simp
qed

subsection \<open>Blob placement: deduplication and idempotence\<close>

text \<open>The store operations only ever add to what the store holds: a blob that exists
  stays, with its bytes. From this, a successful \<^verbatim>\<open>Save\<close> leaves every blob of the entry
  in the store, and a \<^verbatim>\<open>Save\<close> that finds them all there writes nothing.\<close>

lemma map_of_update: "map_of (AList.update k v al) q = (if q = k then Some v else map_of al q)"
  by (simp add: update_conv')

lemma map_of_delete: "map_of (AList.delete k al) q = (if q = k then None else map_of al q)"
  by (simp add: delete_conv')

lemma blob_exists_iff:
  "blob_exists b fs h \<longleftrightarrow>
     DataStore b h \<noteq> [] \<and> (\<exists>n. map_of fs (DataStore b h) = Some n \<and> (\<forall>t. n \<noteq> LinkNode t))"
  by (auto simp: blob_exists_def os_Stat_def os_Lstat_def split: option.splits fnode.splits sum.splits)

lemma MkdirAll_from_keeps:
  "MkdirAll_from fs pre cs = Inr fs' \<Longrightarrow> map_of fs q = Some n \<Longrightarrow> map_of fs' q = Some n"
proof (induction cs arbitrary: fs pre)
  case Nil
  then show ?case by simp
next
  case (Cons c cs)
  show ?case
  proof (cases "map_of fs (pre @ [c])")
    case None
    with Cons.prems have m: "MkdirAll_from (AList.update (pre @ [c]) DirNode fs) (pre @ [c]) cs = Inr fs'"
      by simp
    have "map_of (AList.update (pre @ [c]) DirNode fs) q = Some n"
      using None Cons.prems(2) by (auto simp: map_of_update)
    then show ?thesis using Cons.IH[OF m] by simp
  next
    case (Some a)
    with Cons.prems show ?thesis using Cons.IH by (cases a) auto
  qed
qed

lemma os_MkdirAll_keeps:
  "os_MkdirAll fs p = Inr fs' \<Longrightarrow> map_of fs q = Some n \<Longrightarrow> map_of fs' q = Some n"
  unfolding os_MkdirAll_def by (rule MkdirAll_from_keeps)

lemma os_Create_map:
  "os_Create L fs p = Inr fs' \<Longrightarrow>
     (\<exists>m. map_of fs' p = Some (RegFile [] m) \<and>
          m = (case map_of fs p of Some (RegFile bs m0) \<Rightarrow> m0 | _ \<Rightarrow> create_mode L))
     \<and> (\<forall>q. q \<noteq> p \<longrightarrow> map_of fs' q = map_of fs q)"
  by (auto simp: os_Create_def map_of_update split: if_splits option.splits fnode.splits)

lemma write_bytes_map:
  "map_of fs p = Some (RegFile bs m) \<Longrightarrow>
     map_of (write_bytes fs p data) q = (if q = p then Some (RegFile (bs @ data) m) else map_of fs q)"
  by (simp add: write_bytes_def map_of_update)

lemma os_Rename_map:
  "os_Rename fs old new = Inr fs' \<Longrightarrow>
     map_of fs' q = (if q = new then map_of fs old else if q = old then None else map_of fs q)"
  by (auto simp: os_Rename_def map_of_update map_of_delete split: if_splits option.splits fnode.splits)

lemma partial_ne_blob: "DataStore b h \<noteq> [] \<Longrightarrow> partial_of (DataStore b h) \<noteq> DataStore b h'"
proof
  assume ne: "DataStore b h \<noteq> []" and eq: "partial_of (DataStore b h) = DataStore b h'"
  have p: "partial_of (DataStore b h) = StoreData b @ [take 2 h, h @ ''.gz'' @ ''.partial'']"
    using ne by (simp add: DataStore_def partial_of_def butlast_append split: if_splits)
  then have "DataStore b h' \<noteq> []" using eq by auto
  then have "DataStore b h' = StoreData b @ [take 2 h', h' @ ''.gz'']"
    by (simp add: DataStore_def split: if_splits)
  with p eq have "h @ ''.gz'' @ ''.partial'' = h' @ ''.gz''" by simp
  then have "last (h @ ''.gz'' @ ''.partial'') = last (h' @ ''.gz'')" by simp
  then show False by simp
qed

lemma put_blob_map:
  assumes "put_blob L fs dest data = Inr fs'"
  shows "\<exists>m. map_of fs' dest = Some (RegFile (gzip L data) m)"
    and "partial_of dest \<noteq> dest \<Longrightarrow> map_of fs' (partial_of dest) = None"
    and "q \<noteq> dest \<Longrightarrow> q \<noteq> partial_of dest \<Longrightarrow> map_of fs q = Some n \<Longrightarrow> map_of fs' q = Some n"
proof -
  from assms obtain fs1 fs2 where
    1: "os_MkdirAll fs (butlast dest) = Inr fs1" and
    2: "os_Create L fs1 (partial_of dest) = Inr fs2" and
    3: "os_Rename (write_bytes fs2 (partial_of dest) (gzip L data)) (partial_of dest) dest = Inr fs'"
    by (auto simp: put_blob_def split: sum.splits)
  from os_Create_map[OF 2] obtain m where
    m: "map_of fs2 (partial_of dest) = Some (RegFile [] m)" and
    o: "\<forall>q. q \<noteq> partial_of dest \<longrightarrow> map_of fs2 q = map_of fs1 q" by blast
  have w: "\<And>q. map_of (write_bytes fs2 (partial_of dest) (gzip L data)) q =
      (if q = partial_of dest then Some (RegFile (gzip L data) m) else map_of fs2 q)"
    using write_bytes_map[OF m] by simp
  show "\<exists>m. map_of fs' dest = Some (RegFile (gzip L data) m)"
    using os_Rename_map[OF 3, of dest] w by simp
  show "partial_of dest \<noteq> dest \<Longrightarrow> map_of fs' (partial_of dest) = None"
    using os_Rename_map[OF 3, of "partial_of dest"] by simp
  show "q \<noteq> dest \<Longrightarrow> q \<noteq> partial_of dest \<Longrightarrow> map_of fs q = Some n \<Longrightarrow> map_of fs' q = Some n"
    using os_Rename_map[OF 3, of q] w o os_MkdirAll_keeps[OF 1, of q n] by simp
qed

lemma put_blob_fs_le:
  assumes "put_blob L fs (DataStore b h) data = Inr fs'" and "DataStore b h \<noteq> []"
  shows "fs_le b fs fs'" and "blob_exists b fs' h"
proof -
  show e: "blob_exists b fs' h"
    using put_blob_map(1)[OF assms(1)] assms(2) by (auto simp: blob_exists_iff)
  show "fs_le b fs fs'"
    unfolding fs_le_def
  proof (intro allI impI)
    fix h' assume a: "blob_exists b fs h'"
    show "blob_exists b fs' h'"
    proof (cases "DataStore b h' = DataStore b h")
      case True
      then show ?thesis using e a by (auto simp: blob_exists_iff)
    next
      case False
      have "DataStore b h' \<noteq> partial_of (DataStore b h)"
        using partial_ne_blob[OF assms(2), of h'] by simp
      then show ?thesis using a put_blob_map(3)[OF assms(1) False]
        by (auto simp: blob_exists_iff)
    qed
  qed
qed

lemma fs_le_refl: "fs_le b fs fs"
  by (simp add: fs_le_def)

lemma fs_le_trans: "fs_le b fs1 fs2 \<Longrightarrow> fs_le b fs2 fs3 \<Longrightarrow> fs_le b fs1 fs3"
  by (simp add: fs_le_def)

lemma mkdir_fs_le: "os_MkdirAll fs p = Inr fs1 \<Longrightarrow> fs_le b fs fs1"
  by (auto simp: fs_le_def blob_exists_iff dest: os_MkdirAll_keeps)

lemma create_partial_fs_le:
  "os_Create L fs1 (partial_of (DataStore b h)) = Inr fs2 \<Longrightarrow> DataStore b h \<noteq> [] \<Longrightarrow>
   fs_le b fs1 fs2"
  using partial_ne_blob[of b h]
  by (auto simp: fs_le_def blob_exists_iff dest!: os_Create_map) metis

lemma write_partial_fs_le:
  "DataStore b h \<noteq> [] \<Longrightarrow> fs_le b fs2 (write_bytes fs2 (partial_of (DataStore b h)) data)"
  using partial_ne_blob[of b h]
  by (auto simp: fs_le_def blob_exists_iff write_bytes_def map_of_update
      split: option.splits fnode.splits)

lemma tail_fs_le:
  assumes 1: "os_MkdirAll fs (butlast (DataStore b h)) = Inr fs1"
    and 2: "os_Create L fs1 (partial_of (DataStore b h)) = Inr fs2"
    and 3: "write_partial_and_rename L fs2 (DataStore b h) data = (fs3, r)"
    and ne: "DataStore b h \<noteq> []"
  shows "fs_le b fs fs3" and "r = None \<Longrightarrow> put_blob L fs (DataStore b h) data = Inr fs3"
proof -
  show p: "r = None \<Longrightarrow> put_blob L fs (DataStore b h) data = Inr fs3"
    using 1 2 3 by (auto simp: put_blob_def write_partial_and_rename_def split: sum.splits)
  show "fs_le b fs fs3"
  proof (cases r)
    case None
    then show ?thesis using put_blob_fs_le(1)[OF p ne] by simp
  next
    case (Some e)
    then have "fs3 = write_bytes fs2 (partial_of (DataStore b h)) (gzip L data)"
      using 3 by (auto simp: write_partial_and_rename_def split: sum.splits)
    then show ?thesis
      using mkdir_fs_le[OF 1, of b] create_partial_fs_le[OF 2 ne] write_partial_fs_le[OF ne, of fs2]
      by (metis fs_le_trans)
  qed
qed

lemma blob_exists_ne: "blob_exists b fs h \<Longrightarrow> DataStore b h \<noteq> []"
  by (simp add: blob_exists_iff)

lemma FileEntry_Save_props:
  assumes s: "FileEntry_Save L b root p h w = (w', r)"
  shows "fs_le b (w_fs w) (w_fs w')"
    and "blob_exists b (w_fs w) h \<Longrightarrow>
           w_fs w' = w_fs w \<and> r = None \<and> archived (w_stats w') = archived (w_stats w)"
    and "r = None \<Longrightarrow> \<not> DryRun b \<Longrightarrow> blob_exists b (w_fs w') h"
    and "r = None \<Longrightarrow> \<not> DryRun b \<Longrightarrow> \<not> blob_exists b (w_fs w) h \<Longrightarrow>
           \<exists>bs. src_Stat b root p = Inr (File bs) \<and>
                put_blob L (w_fs w) (DataStore b h) bs = Inr (w_fs w')"
    and "DryRun b \<Longrightarrow> w_fs w' = w_fs w"
proof -
  show ex: "w_fs w' = w_fs w \<and> r = None \<and> archived (w_stats w') = archived (w_stats w)"
    if be: "blob_exists b (w_fs w) h"
  proof -
    have ne: "DataStore b h \<noteq> []" using be by (rule blob_exists_ne)
    have "(w', r) = (w\<lparr>w_stats := (w_stats w)\<lparr>FilesTotal := FilesTotal (w_stats w) + 1\<rparr>\<rparr>, None)"
      using s be ne by (simp add: FileEntry_Save_def Let_def)
    then show ?thesis by (auto simp: archived_def)
  qed
  show dry: "DryRun b \<Longrightarrow> w_fs w' = w_fs w"
    using s by (auto simp: FileEntry_Save_def Let_def split: if_splits)
  show put: "r = None \<Longrightarrow> \<not> DryRun b \<Longrightarrow> \<not> blob_exists b (w_fs w) h \<Longrightarrow>
           \<exists>bs. src_Stat b root p = Inr (File bs) \<and>
                put_blob L (w_fs w) (DataStore b h) bs = Inr (w_fs w')"
    using s
    by (auto simp: FileEntry_Save_def Let_def put_blob_def write_partial_and_rename_def
        split: if_splits sum.splits node.splits)
  show "r = None \<Longrightarrow> \<not> DryRun b \<Longrightarrow> blob_exists b (w_fs w') h"
  proof (cases "blob_exists b (w_fs w) h")
    case True
    then show ?thesis using ex by simp
  next
    case False
    assume a: "r = None" "\<not> DryRun b"
    have ne: "DataStore b h \<noteq> []" using s a by (auto simp: FileEntry_Save_def Let_def split: if_splits)
    from put[OF a False] obtain bs where "put_blob L (w_fs w) (DataStore b h) bs = Inr (w_fs w')"
      by blast
    then show ?thesis using put_blob_fs_le(2) ne by blast
  qed
  show "fs_le b (w_fs w) (w_fs w')"
  proof (cases "DataStore b h = [] \<or> blob_exists b (w_fs w) h \<or> DryRun b")
    case True
    then have "w_fs w' = w_fs w" using s ex dry
      by (auto simp: FileEntry_Save_def Let_def split: if_splits)
    then show ?thesis by (simp add: fs_le_refl)
  next
    case False
    then have ne: "DataStore b h \<noteq> []" by simp
    show ?thesis
    proof (cases "os_MkdirAll (w_fs w) (butlast (DataStore b h))")
      case (Inl e)
      then have "w_fs w' = w_fs w" using s False by (auto simp: FileEntry_Save_def Let_def)
      then show ?thesis by (simp add: fs_le_refl)
    next
      case (Inr fs1)
      note m = mkdir_fs_le[OF Inr, of b]
      show ?thesis
      proof (cases "src_Stat b root p")
        case (Inl e)
        then have "w_fs w' = fs1" using s False Inr by (auto simp: FileEntry_Save_def Let_def)
        then show ?thesis using m by simp
      next
        case orig: (Inr orig)
        show ?thesis
        proof (cases "os_Create L fs1 (partial_of (DataStore b h))")
          case (Inl e)
          then have "w_fs w' = fs1" using s False Inr orig by (auto simp: FileEntry_Save_def Let_def)
          then show ?thesis using m by simp
        next
          case c: (Inr fs2)
          show ?thesis
          proof (cases "\<exists>bs. orig = File bs")
            case True
            then obtain bs where bs: "orig = File bs" by blast
            obtain fs3 r3 where t: "write_partial_and_rename L fs2 (DataStore b h) bs = (fs3, r3)"
              by (cases "write_partial_and_rename L fs2 (DataStore b h) bs")
            then have "w_fs w' = fs3" using s False Inr orig c bs
              by (auto simp: FileEntry_Save_def Let_def)
            then show ?thesis using tail_fs_le(1)[OF Inr c t ne] by simp
          next
            case nf: False
            then have "w_fs w' = write_bytes fs2 (partial_of (DataStore b h)) (gzip L [])"
              using s False Inr orig c by (cases orig) (auto simp: FileEntry_Save_def Let_def)
            then show ?thesis
              using m create_partial_fs_le[OF c ne] write_partial_fs_le[OF ne, of fs2 "gzip L []"]
              by (metis fs_le_trans)
          qed
        qed
      qed
    qed
  qed
qed

lemma LinkEntry_Save_props:
  assumes s: "LinkEntry_Save L b t h w = (w', r)"
  shows "fs_le b (w_fs w) (w_fs w')"
    and "blob_exists b (w_fs w) h \<Longrightarrow>
           w_fs w' = w_fs w \<and> r = None \<and> archived (w_stats w') = archived (w_stats w)"
    and "r = None \<Longrightarrow> \<not> DryRun b \<Longrightarrow> blob_exists b (w_fs w') h"
    and "r = None \<Longrightarrow> \<not> DryRun b \<Longrightarrow> \<not> blob_exists b (w_fs w) h \<Longrightarrow>
           put_blob L (w_fs w) (DataStore b h) t = Inr (w_fs w')"
    and "DryRun b \<Longrightarrow> w_fs w' = w_fs w"
proof -
  show ex: "w_fs w' = w_fs w \<and> r = None \<and> archived (w_stats w') = archived (w_stats w)"
    if be: "blob_exists b (w_fs w) h"
  proof -
    have ne: "DataStore b h \<noteq> []" using be by (rule blob_exists_ne)
    have "(w', r) = (w\<lparr>w_stats := (w_stats w)\<lparr>FilesTotal := FilesTotal (w_stats w) + 1\<rparr>\<rparr>, None)"
      using s be ne by (simp add: LinkEntry_Save_def Let_def)
    then show ?thesis by (auto simp: archived_def)
  qed
  show dry: "DryRun b \<Longrightarrow> w_fs w' = w_fs w"
    using s by (auto simp: LinkEntry_Save_def Let_def split: if_splits)
  show put: "r = None \<Longrightarrow> \<not> DryRun b \<Longrightarrow> \<not> blob_exists b (w_fs w) h \<Longrightarrow>
           put_blob L (w_fs w) (DataStore b h) t = Inr (w_fs w')"
    using s
    by (auto simp: LinkEntry_Save_def Let_def put_blob_def write_partial_and_rename_def
        split: if_splits sum.splits)
  show "r = None \<Longrightarrow> \<not> DryRun b \<Longrightarrow> blob_exists b (w_fs w') h"
  proof (cases "blob_exists b (w_fs w) h")
    case True
    then show ?thesis using ex by simp
  next
    case False
    assume a: "r = None" "\<not> DryRun b"
    have ne: "DataStore b h \<noteq> []" using s a by (auto simp: LinkEntry_Save_def Let_def split: if_splits)
    show ?thesis using put_blob_fs_le(2)[OF put[OF a False] ne] .
  qed
  show "fs_le b (w_fs w) (w_fs w')"
  proof (cases "DataStore b h = [] \<or> blob_exists b (w_fs w) h \<or> DryRun b")
    case True
    then have "w_fs w' = w_fs w" using s ex dry
      by (auto simp: LinkEntry_Save_def Let_def split: if_splits)
    then show ?thesis by (simp add: fs_le_refl)
  next
    case False
    then have ne: "DataStore b h \<noteq> []" by simp
    show ?thesis
    proof (cases "os_MkdirAll (w_fs w) (butlast (DataStore b h))")
      case (Inl e)
      then have "w_fs w' = w_fs w" using s False by (auto simp: LinkEntry_Save_def Let_def)
      then show ?thesis by (simp add: fs_le_refl)
    next
      case (Inr fs1)
      note m = mkdir_fs_le[OF Inr, of b]
      show ?thesis
      proof (cases "os_Create L fs1 (partial_of (DataStore b h))")
        case (Inl e)
        then have "w_fs w' = fs1" using s False Inr by (auto simp: LinkEntry_Save_def Let_def)
        then show ?thesis using m by simp
      next
        case c: (Inr fs2)
        obtain fs3 r3 where t: "write_partial_and_rename L fs2 (DataStore b h) t = (fs3, r3)"
          by (cases "write_partial_and_rename L fs2 (DataStore b h) t")
        then have "w_fs w' = fs3" using s False Inr c
          by (auto simp: LinkEntry_Save_def Let_def)
        then show ?thesis using tail_fs_le(1)[OF Inr c t ne] by simp
      qed
    qed
  qed
qed

lemma DirectoryEntry_Save_self_props:
  assumes s: "DirectoryEntry_Save_self L b (Inr h) content w = (w', r)"
  shows "fs_le b (w_fs w) (w_fs w')"
    and "blob_exists b (w_fs w) h \<Longrightarrow> w' = w \<and> r = None"
    and "r = None \<Longrightarrow> \<not> DryRun b \<Longrightarrow> blob_exists b (w_fs w') h"
    and "r = None \<Longrightarrow> \<not> DryRun b \<Longrightarrow> \<not> blob_exists b (w_fs w) h \<Longrightarrow>
           \<exists>c. content = Inr c \<and> put_blob L (w_fs w) (DataStore b h) c = Inr (w_fs w')"
    and "DryRun b \<Longrightarrow> w_fs w' = w_fs w"
proof -
  show ex: "w' = w \<and> r = None" if be: "blob_exists b (w_fs w) h"
  proof -
    have ne: "DataStore b h \<noteq> []" using be by (rule blob_exists_ne)
    show ?thesis using s be ne by (simp add: DirectoryEntry_Save_self_def Let_def)
  qed
  show dry: "DryRun b \<Longrightarrow> w_fs w' = w_fs w"
    using s by (auto simp: DirectoryEntry_Save_self_def Let_def split: if_splits)
  show put: "r = None \<Longrightarrow> \<not> DryRun b \<Longrightarrow> \<not> blob_exists b (w_fs w) h \<Longrightarrow>
           \<exists>c. content = Inr c \<and> put_blob L (w_fs w) (DataStore b h) c = Inr (w_fs w')"
    using s
    by (auto simp: DirectoryEntry_Save_self_def Let_def put_blob_def write_partial_and_rename_def
        split: if_splits sum.splits)
  show "r = None \<Longrightarrow> \<not> DryRun b \<Longrightarrow> blob_exists b (w_fs w') h"
  proof (cases "blob_exists b (w_fs w) h")
    case True
    then show ?thesis using ex by simp
  next
    case False
    assume a: "r = None" "\<not> DryRun b"
    have ne: "DataStore b h \<noteq> []"
      using s a by (auto simp: DirectoryEntry_Save_self_def Let_def split: if_splits)
    from put[OF a False] obtain c where "put_blob L (w_fs w) (DataStore b h) c = Inr (w_fs w')"
      by blast
    then show ?thesis using put_blob_fs_le(2) ne by blast
  qed
  show "fs_le b (w_fs w) (w_fs w')"
  proof (cases "DataStore b h = [] \<or> blob_exists b (w_fs w) h \<or> DryRun b")
    case True
    then have "w_fs w' = w_fs w" using s ex dry
      by (auto simp: DirectoryEntry_Save_self_def Let_def split: if_splits)
    then show ?thesis by (simp add: fs_le_refl)
  next
    case False
    then have ne: "DataStore b h \<noteq> []" by simp
    show ?thesis
    proof (cases "os_MkdirAll (w_fs w) (butlast (DataStore b h))")
      case (Inl e)
      then have "w_fs w' = w_fs w" using s False by (auto simp: DirectoryEntry_Save_self_def Let_def)
      then show ?thesis by (simp add: fs_le_refl)
    next
      case (Inr fs1)
      note m = mkdir_fs_le[OF Inr, of b]
      show ?thesis
      proof (cases "os_Create L fs1 (partial_of (DataStore b h))")
        case (Inl e)
        then have "w_fs w' = fs1" using s False Inr by (auto simp: DirectoryEntry_Save_self_def Let_def)
        then show ?thesis using m by simp
      next
        case c: (Inr fs2)
        show ?thesis
        proof (cases content)
          case (Inl e)
          then have "w_fs w' = write_bytes fs2 (partial_of (DataStore b h)) (gzip L [])"
            using s False Inr c by (auto simp: DirectoryEntry_Save_self_def Let_def)
          then show ?thesis
            using m create_partial_fs_le[OF c ne] write_partial_fs_le[OF ne, of fs2 "gzip L []"]
            by (metis fs_le_trans)
        next
          case ct: (Inr ctext)
          obtain fs3 r3 where t: "write_partial_and_rename L fs2 (DataStore b h) ctext = (fs3, r3)"
            by (cases "write_partial_and_rename L fs2 (DataStore b h) ctext")
          then have "w_fs w' = fs3" using s False Inr c ct
            by (auto simp: DirectoryEntry_Save_self_def Let_def)
          then show ?thesis using tail_fs_le(1)[OF Inr c t ne] by simp
        qed
      qed
    qed
  qed
qed

lemma DirectoryEntry_Save_self_err:
  "DirectoryEntry_Save_self L b (Inl e) content w = (w, Some e)"
  by (simp add: DirectoryEntry_Save_self_def)

lemma Save_fs_le:
  "Save L b root e w = (w', r) \<Longrightarrow> fs_le b (w_fs w) (w_fs w')"
  "Save_loop L b root cs w = (w', r) \<Longrightarrow> fs_le b (w_fs w) (w_fs w')"
proof (induction L b root e w and L b root cs w arbitrary: w' r and w' r rule: Save_Save_loop.induct)
  case (1 L b root p n h w)
  then show ?case using FileEntry_Save_props(1) by simp
next
  case (2 L b root p n t h w)
  then show ?case using LinkEntry_Save_props(1) by simp
next
  case (3 L b root p n se cs ig w)
  let ?w1 = "w\<lparr>w_stats := (w_stats w)\<lparr>DirsTotal := DirsTotal (w_stats w) + 1\<rparr>\<rparr>"
  show ?case
  proof (cases se)
    case (Some e)
    then have "w' = ?w1" using 3(2) by (simp add: Let_def)
    then show ?thesis by (simp add: fs_le_refl)
  next
    case None
    obtain w2 r2 where l: "Save_loop L b root cs ?w1 = (w2, r2)"
      by (cases "Save_loop L b root cs ?w1")
    have le1: "fs_le b (w_fs w) (w_fs w2)" using 3(1)[OF refl None l] by simp
    show ?thesis
    proof (cases r2)
      case (Some e)
      then have "w' = w2" using 3(2) None l by (simp add: Let_def)
      then show ?thesis using le1 by simp
    next
      case r2: None
      let ?hr = "Hash L (DirectoryEntry p n se cs ig)"
      have d: "DirectoryEntry_Save_self L b ?hr (ContentAsText L (DirectoryEntry p n se cs ig)) w2 = (w', r)"
        using 3(2) None l r2 by (simp add: Let_def)
      show ?thesis
      proof (cases ?hr)
        case (Inl e)
        then have "w' = w2" using d by (simp add: DirectoryEntry_Save_self_err)
        then show ?thesis using le1 by simp
      next
        case (Inr h)
        then show ?thesis
          using DirectoryEntry_Save_self_props(1)[of L b h _ w2 w' r] d le1 fs_le_trans by metis
      qed
    qed
  qed
next
  case (4 L b root w)
  then show ?case by (simp add: fs_le_refl)
next
  case (5 L b root child rest w)
  obtain w1 r1 where c: "Save L b root child w = (w1, r1)" by (cases "Save L b root child w")
  have le1: "fs_le b (w_fs w) (w_fs w1)" using 5(1)[OF c] .
  show ?case
  proof (cases r1)
    case (Some e)
    then have "w' = w1" using 5(3) c by simp
    then show ?thesis using le1 by simp
  next
    case None
    then have "Save_loop L b root rest w1 = (w', r)" using 5(3) c by simp
    then show ?thesis using 5(2)[OF c[symmetric] None] le1 fs_le_trans by blast
  qed
qed

lemma all_saved_mono:
  "fs_le b fs fs' \<Longrightarrow> all_saved L b fs e \<Longrightarrow> all_saved L b fs' e"
proof (induction e)
  case (FileEntry p n h)
  then show ?case by (simp add: fs_le_def)
next
  case (LinkEntry p n t h)
  then show ?case by (simp add: fs_le_def)
next
  case (DirectoryEntry p n se cs ig)
  have "list_all (all_saved L b fs') cs"
    using DirectoryEntry by (auto simp: list_all_iff)
  then show ?case using DirectoryEntry.prems
    by (auto simp: fs_le_def split: sum.splits)
qed

lemma Save_all_saved:
  "Save L b root e w = (w', None) \<Longrightarrow> \<not> DryRun b \<Longrightarrow> all_saved L b (w_fs w') e"
  "Save_loop L b root cs w = (w', None) \<Longrightarrow> \<not> DryRun b \<Longrightarrow> list_all (all_saved L b (w_fs w')) cs"
proof (induction L b root e w and L b root cs w arbitrary: w' and w' rule: Save_Save_loop.induct)
  case (1 L b root p n h w)
  then show ?case using FileEntry_Save_props(3) by simp
next
  case (2 L b root p n t h w)
  then show ?case using LinkEntry_Save_props(3) by simp
next
  case (3 L b root p n se cs ig w)
  let ?w1 = "w\<lparr>w_stats := (w_stats w)\<lparr>DirsTotal := DirsTotal (w_stats w) + 1\<rparr>\<rparr>"
  let ?e = "DirectoryEntry p n se cs ig"
  have se: "se = None" using 3(2) by (cases se) (auto simp: Let_def)
  obtain w2 r2 where l: "Save_loop L b root cs ?w1 = (w2, r2)"
    by (cases "Save_loop L b root cs ?w1")
  have r2: "r2 = None" using 3(2) se l by (cases r2) (auto simp: Let_def)
  have d: "DirectoryEntry_Save_self L b (Hash L ?e) (ContentAsText L ?e) w2 = (w', None)"
    using 3(2) se l r2 by (simp add: Let_def)
  then obtain h where h: "Hash L ?e = Inr h"
    by (cases "Hash L ?e") (auto simp: DirectoryEntry_Save_self_err)
  have kids: "list_all (all_saved L b (w_fs w2)) cs"
    using 3(1)[OF refl se] l r2 3(3) by simp
  have le: "fs_le b (w_fs w2) (w_fs w')"
    using DirectoryEntry_Save_self_props(1) d h by metis
  have kids': "list_all (all_saved L b (w_fs w')) cs"
    using kids all_saved_mono[OF le] by (auto simp: list_all_iff)
  have own: "blob_exists b (w_fs w') h"
    using DirectoryEntry_Save_self_props(3)[of L b h _ w2 w' None] d h 3(3) by simp
  show ?case using se kids' own h by simp
next
  case (4 L b root w)
  then show ?case by simp
next
  case (5 L b root child rest w)
  obtain w1 r1 where c: "Save L b root child w = (w1, r1)" by (cases "Save L b root child w")
  have r1: "r1 = None" using 5(3) c by (cases r1) auto
  have rest: "Save_loop L b root rest w1 = (w', None)" using 5(3) c r1 by simp
  have a: "all_saved L b (w_fs w1) child" using 5(1) c r1 5(4) by simp
  have le: "fs_le b (w_fs w1) (w_fs w')" using Save_fs_le(2)[OF rest] .
  have "list_all (all_saved L b (w_fs w')) rest" using 5(2)[OF c[symmetric] r1 rest 5(4)] .
  then show ?case using all_saved_mono[OF le a] by simp
qed

lemma Save_when_all_saved:
  "all_saved L b (w_fs w) e \<Longrightarrow>
     snd (Save L b root e w) = None \<and> w_fs (fst (Save L b root e w)) = w_fs w \<and>
     archived (w_stats (fst (Save L b root e w))) = archived (w_stats w)"
  "list_all (all_saved L b (w_fs w)) cs \<Longrightarrow>
     snd (Save_loop L b root cs w) = None \<and> w_fs (fst (Save_loop L b root cs w)) = w_fs w \<and>
     archived (w_stats (fst (Save_loop L b root cs w))) = archived (w_stats w)"
proof (induction L b root e w and L b root cs w rule: Save_Save_loop.induct)
  case (1 L b root p n h w)
  obtain w' r where s: "FileEntry_Save L b root p h w = (w', r)"
    by (cases "FileEntry_Save L b root p h w")
  show ?case using FileEntry_Save_props(2)[OF s] 1 s by simp
next
  case (2 L b root p n t h w)
  obtain w' r where s: "LinkEntry_Save L b t h w = (w', r)"
    by (cases "LinkEntry_Save L b t h w")
  show ?case using LinkEntry_Save_props(2)[OF s] 2 s by simp
next
  case (3 L b root p n se cs ig w)
  let ?w1 = "w\<lparr>w_stats := (w_stats w)\<lparr>DirsTotal := DirsTotal (w_stats w) + 1\<rparr>\<rparr>"
  let ?e = "DirectoryEntry p n se cs ig"
  have se: "se = None" using 3(2) by simp
  have kids: "list_all (all_saved L b (w_fs ?w1)) cs" using 3(2) by simp
  obtain h where h: "Hash L ?e = Inr h" and own: "blob_exists b (w_fs w) h"
    using 3(2) by (cases "Hash L ?e") auto
  obtain w2 r2 where l: "Save_loop L b root cs ?w1 = (w2, r2)"
    by (cases "Save_loop L b root cs ?w1")
  have ih: "r2 = None \<and> w_fs w2 = w_fs w \<and> archived (w_stats w2) = archived (w_stats ?w1)"
    using 3(1)[OF refl se kids] l by simp
  have a1: "archived (w_stats ?w1) = archived (w_stats w)" by (simp add: archived_def)
  obtain w3 r3 where d: "DirectoryEntry_Save_self L b (Inr h) (ContentAsText L ?e) w2 = (w3, r3)"
    by (cases "DirectoryEntry_Save_self L b (Inr h) (ContentAsText L ?e) w2")
  have "w3 = w2 \<and> r3 = None"
    using DirectoryEntry_Save_self_props(2)[OF d] own ih by simp
  then have "Save L b root ?e w = (w2, None)"
    using se l ih d h by (simp add: Let_def del: Hash.simps)
  then show ?case using ih a1 by simp
next
  case (4 L b root w)
  then show ?case by simp
next
  case (5 L b root child rest w)
  obtain w1 r1 where c: "Save L b root child w = (w1, r1)" by (cases "Save L b root child w")
  have ih1: "r1 = None \<and> w_fs w1 = w_fs w \<and> archived (w_stats w1) = archived (w_stats w)"
    using 5(1) 5(3) c by simp
  have "list_all (all_saved L b (w_fs w1)) rest" using 5(3) ih1 by simp
  then have ih2: "snd (Save_loop L b root rest w1) = None \<and>
      w_fs (fst (Save_loop L b root rest w1)) = w_fs w1 \<and>
      archived (w_stats (fst (Save_loop L b root rest w1))) = archived (w_stats w1)"
    using 5(2)[OF c[symmetric]] ih1 by simp
  show ?case using c ih1 ih2 by simp
qed

lemma Save_dry:
  "DryRun b \<Longrightarrow> w_fs (fst (Save L b root e w)) = w_fs w"
  "DryRun b \<Longrightarrow> w_fs (fst (Save_loop L b root cs w)) = w_fs w"
proof (induction L b root e w and L b root cs w rule: Save_Save_loop.induct)
  case (1 L b root p n h w)
  obtain w' r where s: "FileEntry_Save L b root p h w = (w', r)"
    by (cases "FileEntry_Save L b root p h w")
  show ?case using FileEntry_Save_props(5)[OF s 1] s by simp
next
  case (2 L b root p n t h w)
  obtain w' r where s: "LinkEntry_Save L b t h w = (w', r)"
    by (cases "LinkEntry_Save L b t h w")
  show ?case using LinkEntry_Save_props(5)[OF s 2] s by simp
next
  case (3 L b root p n se cs ig w)
  let ?w1 = "w\<lparr>w_stats := (w_stats w)\<lparr>DirsTotal := DirsTotal (w_stats w) + 1\<rparr>\<rparr>"
  let ?e = "DirectoryEntry p n se cs ig"
  show ?case
  proof (cases se)
    case (Some e)
    then show ?thesis by (simp add: Let_def)
  next
    case None
    obtain w2 r2 where l: "Save_loop L b root cs ?w1 = (w2, r2)"
      by (cases "Save_loop L b root cs ?w1")
    have f2: "w_fs w2 = w_fs w" using 3(1)[OF refl None 3(2)] l by simp
    show ?thesis
    proof (cases r2)
      case (Some e)
      then show ?thesis using None l f2 by (simp add: Let_def)
    next
      case r2: None
      obtain w3 r3 where d: "DirectoryEntry_Save_self L b (Hash L ?e) (ContentAsText L ?e) w2 = (w3, r3)"
        by (cases "DirectoryEntry_Save_self L b (Hash L ?e) (ContentAsText L ?e) w2")
      have "w_fs w3 = w_fs w2"
      proof (cases "Hash L ?e")
        case (Inl e)
        then show ?thesis using d by (simp add: DirectoryEntry_Save_self_err)
      next
        case (Inr h)
        then show ?thesis using DirectoryEntry_Save_self_props(5)[of L b h _ w2 w3 r3] d 3(2) by simp
      qed
      moreover have "Save L b root ?e w = (w3, r3)"
        using None l r2 d by (simp add: Let_def del: Hash.simps)
      ultimately show ?thesis using f2 by simp
    qed
  qed
next
  case (4 L b root w)
  then show ?case by simp
next
  case (5 L b root child rest w)
  obtain w1 r1 where c: "Save L b root child w = (w1, r1)" by (cases "Save L b root child w")
  have f1: "w_fs w1 = w_fs w" using 5(1)[OF 5(3)] c by simp
  show ?case
  proof (cases r1)
    case (Some e)
    then show ?thesis using c f1 by simp
  next
    case None
    then show ?thesis using 5(2)[OF c[symmetric] None 5(3)] c f1 by simp
  qed
qed

lemma partial_ne: "dest \<noteq> [] \<Longrightarrow> partial_of dest \<noteq> dest"
proof
  assume ne: "dest \<noteq> []" and "partial_of dest = dest"
  then have "last (partial_of dest) = last dest" by simp
  then have "length (last dest @ ''.partial'') = length (last dest)" by (simp add: partial_of_def)
  then show False by simp
qed

text \<open>Claim C4, as amended. Blob placement is deduplicating and idempotent.
  \<^item> A file or link entry whose blob path exists is saved by counting the file and nothing
    else: no write, the store unchanged, no error.
  \<^item> An entry all of whose blobs exist (its own and, for a directory, those of all its
    descendants) is saved with the store unchanged and nothing counted as archived.
  \<^item> Outside dry-run mode, a successful save of a file, of a link, or of a directory's own
    listing whose blob path does not exist is exactly the write of the compressed bytes to
    the path with suffix .partial followed by the rename to the final path: afterwards the
    final path holds the compressed bytes and the partial path does not exist.
  \<^item> In dry-run mode the store is never changed.
  \<^item> Outside dry-run mode, a second save of the same entry after a successful one returns
    no error, leaves the store unchanged and archives nothing (the counters of archived
    files, directories and bytes do not move).\<close>

theorem Save_deduplicates:
  "(blob_exists b (w_fs w) h \<longrightarrow>
      Save L b root (FileEntry p n h) w =
        (w\<lparr>w_stats := (w_stats w)\<lparr>FilesTotal := FilesTotal (w_stats w) + 1\<rparr>\<rparr>, None) \<and>
      Save L b root (LinkEntry p n t h) w =
        (w\<lparr>w_stats := (w_stats w)\<lparr>FilesTotal := FilesTotal (w_stats w) + 1\<rparr>\<rparr>, None))
   \<and> (all_saved L b (w_fs w) e \<longrightarrow>
      snd (Save L b root e w) = None \<and> w_fs (fst (Save L b root e w)) = w_fs w \<and>
      archived (w_stats (fst (Save L b root e w))) = archived (w_stats w))
   \<and> (\<not> DryRun b \<and> \<not> blob_exists b (w_fs w) h \<and> Save L b root (FileEntry p n h) w = (w', None) \<longrightarrow>
      (\<exists>bs m. src_Stat b root p = Inr (File bs) \<and>
         put_blob L (w_fs w) (DataStore b h) bs = Inr (w_fs w') \<and>
         map_of (w_fs w') (DataStore b h) = Some (RegFile (gzip L bs) m) \<and>
         map_of (w_fs w') (partial_of (DataStore b h)) = None))
   \<and> (\<not> DryRun b \<and> \<not> blob_exists b (w_fs w) h \<and> Save L b root (LinkEntry p n t h) w = (w', None) \<longrightarrow>
      (\<exists>m. put_blob L (w_fs w) (DataStore b h) t = Inr (w_fs w') \<and>
         map_of (w_fs w') (DataStore b h) = Some (RegFile (gzip L t) m) \<and>
         map_of (w_fs w') (partial_of (DataStore b h)) = None))
   \<and> (\<not> DryRun b \<and> \<not> blob_exists b (w_fs w) h \<and>
       DirectoryEntry_Save_self L b (Inr h) (Inr c) w = (w', None) \<longrightarrow>
      (\<exists>m. put_blob L (w_fs w) (DataStore b h) c = Inr (w_fs w') \<and>
         map_of (w_fs w') (DataStore b h) = Some (RegFile (gzip L c) m) \<and>
         map_of (w_fs w') (partial_of (DataStore b h)) = None))
   \<and> (DryRun b \<longrightarrow> w_fs (fst (Save L b root e w)) = w_fs w)
   \<and> (\<not> DryRun b \<and> Save L b root e w = (w', None) \<longrightarrow>
      snd (Save L b root e w') = None \<and> w_fs (fst (Save L b root e w')) = w_fs w' \<and>
      archived (w_stats (fst (Save L b root e w'))) = archived (w_stats w'))"
proof (intro conjI impI)
  assume be: "blob_exists b (w_fs w) h"
  then have ne: "DataStore b h \<noteq> []" by (rule blob_exists_ne)
  show "Save L b root (FileEntry p n h) w =
        (w\<lparr>w_stats := (w_stats w)\<lparr>FilesTotal := FilesTotal (w_stats w) + 1\<rparr>\<rparr>, None)"
    using be ne by (simp add: FileEntry_Save_def Let_def)
  show "Save L b root (LinkEntry p n t h) w =
        (w\<lparr>w_stats := (w_stats w)\<lparr>FilesTotal := FilesTotal (w_stats w) + 1\<rparr>\<rparr>, None)"
    using be ne by (simp add: LinkEntry_Save_def Let_def)
next
  assume a: "all_saved L b (w_fs w) e"
  show "snd (Save L b root e w) = None" "w_fs (fst (Save L b root e w)) = w_fs w"
    "archived (w_stats (fst (Save L b root e w))) = archived (w_stats w)"
    using Save_when_all_saved(1)[OF a] by simp_all
next
  assume a: "\<not> DryRun b \<and> \<not> blob_exists b (w_fs w) h \<and> Save L b root (FileEntry p n h) w = (w', None)"
  then have s: "FileEntry_Save L b root p h w = (w', None)" by simp
  have ne: "DataStore b h \<noteq> []" using s by (auto simp: FileEntry_Save_def Let_def split: if_splits)
  from FileEntry_Save_props(4)[OF s] a obtain bs where
    bs: "src_Stat b root p = Inr (File bs)" "put_blob L (w_fs w) (DataStore b h) bs = Inr (w_fs w')"
    by blast
  from put_blob_map(1)[OF bs(2)] obtain m where
    "map_of (w_fs w') (DataStore b h) = Some (RegFile (gzip L bs) m)" by blast
  moreover have "map_of (w_fs w') (partial_of (DataStore b h)) = None"
    using put_blob_map(2)[OF bs(2)] partial_ne[OF ne] by simp
  ultimately show "\<exists>bs m. src_Stat b root p = Inr (File bs) \<and>
         put_blob L (w_fs w) (DataStore b h) bs = Inr (w_fs w') \<and>
         map_of (w_fs w') (DataStore b h) = Some (RegFile (gzip L bs) m) \<and>
         map_of (w_fs w') (partial_of (DataStore b h)) = None"
    using bs by blast
next
  assume a: "\<not> DryRun b \<and> \<not> blob_exists b (w_fs w) h \<and> Save L b root (LinkEntry p n t h) w = (w', None)"
  then have s: "LinkEntry_Save L b t h w = (w', None)" by simp
  have ne: "DataStore b h \<noteq> []" using s by (auto simp: LinkEntry_Save_def Let_def split: if_splits)
  have pb: "put_blob L (w_fs w) (DataStore b h) t = Inr (w_fs w')"
    using LinkEntry_Save_props(4)[OF s] a by blast
  from put_blob_map(1)[OF pb] obtain m where
    "map_of (w_fs w') (DataStore b h) = Some (RegFile (gzip L t) m)" by blast
  moreover have "map_of (w_fs w') (partial_of (DataStore b h)) = None"
    using put_blob_map(2)[OF pb] partial_ne[OF ne] by simp
  ultimately show "\<exists>m. put_blob L (w_fs w) (DataStore b h) t = Inr (w_fs w') \<and>
         map_of (w_fs w') (DataStore b h) = Some (RegFile (gzip L t) m) \<and>
         map_of (w_fs w') (partial_of (DataStore b h)) = None"
    using pb by blast
next
  assume a: "\<not> DryRun b \<and> \<not> blob_exists b (w_fs w) h \<and>
       DirectoryEntry_Save_self L b (Inr h) (Inr c) w = (w', None)"
  then have s: "DirectoryEntry_Save_self L b (Inr h) (Inr c) w = (w', None)" by simp
  have ne: "DataStore b h \<noteq> []"
    using s by (auto simp: DirectoryEntry_Save_self_def Let_def split: if_splits)
  have pb: "put_blob L (w_fs w) (DataStore b h) c = Inr (w_fs w')"
    using DirectoryEntry_Save_self_props(4)[OF s] a by auto
  from put_blob_map(1)[OF pb] obtain m where
    "map_of (w_fs w') (DataStore b h) = Some (RegFile (gzip L c) m)" by blast
  moreover have "map_of (w_fs w') (partial_of (DataStore b h)) = None"
    using put_blob_map(2)[OF pb] partial_ne[OF ne] by simp
  ultimately show "\<exists>m. put_blob L (w_fs w) (DataStore b h) c = Inr (w_fs w') \<and>
         map_of (w_fs w') (DataStore b h) = Some (RegFile (gzip L c) m) \<and>
         map_of (w_fs w') (partial_of (DataStore b h)) = None"
    using pb by blast
next
  assume "DryRun b"
  then show "w_fs (fst (Save L b root e w)) = w_fs w" by (rule Save_dry(1))
next
  assume a: "\<not> DryRun b \<and> Save L b root e w = (w', None)"
  then have "all_saved L b (w_fs w') e" using Save_all_saved(1) by blast
  then show "snd (Save L b root e w') = None" "w_fs (fst (Save L b root e w')) = w_fs w'"
    "archived (w_stats (fst (Save L b root e w'))) = archived (w_stats w')"
    using Save_when_all_saved(1) by blast+
qed

theorem Save_deduplicates_witness:
  "Save toy ex_backup ex_src ex_dir_entry ex_world0 = (ex_world1, None)
   \<and> snd (Save toy ex_backup ex_src ex_dir_entry ex_world1) = None
   \<and> w_fs (fst (Save toy ex_backup ex_src ex_dir_entry ex_world1)) = ex_store1
   \<and> archived (w_stats (fst (Save toy ex_backup ex_src ex_dir_entry ex_world1))) = (1, 1, 2)
   \<and> Save toy ex_backup ex_src ex_file_entry ex_world1 =
        (ex_world1\<lparr>w_stats := (w_stats ex_world1)\<lparr>FilesTotal := 2\<rparr>\<rparr>, None)
   \<and> (\<exists>m. put_blob toy [] (DataStore ex_backup ex_digest) ''hi'' = Inr (take 4 ex_store1) \<and>
          map_of (take 4 ex_store1) (DataStore ex_backup ex_digest) = Some (RegFile ''GZhi'' m) \<and>
          map_of (take 4 ex_store1) (partial_of (DataStore ex_backup ex_digest)) = None)
   \<and> w_fs (fst (Save toy (ex_backup\<lparr>DryRun := True\<rparr>) ex_src ex_dir_entry ex_world0)) = []"
proof -
  let ?wf = "\<lparr>w_fs = take 4 ex_store1,
     w_stats = zero_stats\<lparr>FilesTotal := 1, FilesArchived := 1, BytesArchived := 2\<rparr>\<rparr>"
  have fst1: "Save toy ex_backup ex_src ex_dir_entry ex_world0 = (ex_world1, None)"
    by code_simp
  have fsave: "Save toy ex_backup ex_src ex_file_entry ex_world0 = (?wf, None)"
    by code_simp
  have nd: "\<not> DryRun ex_backup" by (simp add: ex_backup_def)
  have be: "blob_exists ex_backup (w_fs ex_world1) ex_digest" by code_simp
  have nbe: "\<not> blob_exists ex_backup (w_fs ex_world0) ex_digest" by code_simp
  have st: "src_Stat ex_backup ex_src [''src'', ''a.txt''] = Inr (File ''hi'')" by code_simp
  have gz: "gzip toy ''hi'' = ''GZhi''" by code_simp
  have ar: "archived (w_stats ex_world1) = (1, 1, 2)" by code_simp
  have f1: "w_fs ex_world1 = ex_store1" "w_fs ex_world0 = []" "w_fs ?wf = take 4 ex_store1"
    by (simp_all add: ex_world1_def ex_world0_def)
  have ft: "FilesTotal (w_stats ex_world1) + 1 = 2" by (simp add: ex_world1_def zero_stats_def)
  note again = Save_deduplicates[where b = ex_backup and w = ex_world0 and w' = ex_world1
      and e = ex_dir_entry and L = toy and root = ex_src]
  note dedup = Save_deduplicates[where b = ex_backup and w = ex_world1 and h = ex_digest
      and L = toy and root = ex_src and p = "[''src'', ''a.txt'']" and n = "''a.txt''"]
  note wr = Save_deduplicates[where b = ex_backup and w = ex_world0 and h = ex_digest
      and w' = ?wf and L = toy and root = ex_src and p = "[''src'', ''a.txt'']" and n = "''a.txt''"]
  note dry = Save_deduplicates[where b = "ex_backup\<lparr>DryRun := True\<rparr>" and w = ex_world0
      and e = ex_dir_entry and L = toy and root = ex_src]
  have c2: "snd (Save toy ex_backup ex_src ex_dir_entry ex_world1) = None
     \<and> w_fs (fst (Save toy ex_backup ex_src ex_dir_entry ex_world1)) = ex_store1
     \<and> archived (w_stats (fst (Save toy ex_backup ex_src ex_dir_entry ex_world1))) = (1, 1, 2)"
    using again fst1 nd ar f1(1) by simp
  have c3: "Save toy ex_backup ex_src ex_file_entry ex_world1 =
        (ex_world1\<lparr>w_stats := (w_stats ex_world1)\<lparr>FilesTotal := 2\<rparr>\<rparr>, None)"
    using dedup be ft by (simp add: ex_file_entry_def)
  have "\<exists>bs m. src_Stat ex_backup ex_src [''src'', ''a.txt''] = Inr (File bs) \<and>
         put_blob toy (w_fs ex_world0) (DataStore ex_backup ex_digest) bs = Inr (w_fs ?wf) \<and>
         map_of (w_fs ?wf) (DataStore ex_backup ex_digest) = Some (RegFile (gzip toy bs) m) \<and>
         map_of (w_fs ?wf) (partial_of (DataStore ex_backup ex_digest)) = None"
    using wr nd nbe fsave unfolding ex_file_entry_def by blast
  then have c4: "\<exists>m. put_blob toy [] (DataStore ex_backup ex_digest) ''hi'' = Inr (take 4 ex_store1) \<and>
          map_of (take 4 ex_store1) (DataStore ex_backup ex_digest) = Some (RegFile ''GZhi'' m) \<and>
          map_of (take 4 ex_store1) (partial_of (DataStore ex_backup ex_digest)) = None"
    unfolding st f1 using gz by auto
  have c5: "w_fs (fst (Save toy (ex_backup\<lparr>DryRun := True\<rparr>) ex_src ex_dir_entry ex_world0)) = []"
    using dry f1(2) by simp
  show ?thesis using fst1 c2 c3 c4 c5 by blast
qed

text \<open>Claim C4 as stated does not hold for every entry: a directory entry is saved
  children first, so when the blob of the directory's listing exists but the blob of one of
  its files does not, saving the directory writes the file's blob and the store changes.\<close>

theorem existing_listing_blob_still_writes:
  "Hash toy ex_dir_entry = Inr ex_dir_hash
   \<and> blob_exists ex_backup ex_store_holed ex_dir_hash
   \<and> Save toy ex_backup ex_src ex_dir_entry \<lparr>w_fs = ex_store_holed, w_stats = zero_stats\<rparr> =
       (\<lparr>w_fs = ex_store_holed @
            [([''st'', ''data'', ''01''], DirNode),
             ([''st'', ''data'', ''01'', ''0123456789abcdef0123456789abcdef.gz''],
              RegFile ''GZhi'' 420)],
         w_stats = zero_stats\<lparr>FilesTotal := 1, FilesArchived := 1, DirsTotal := 1,
                              BytesArchived := 2\<rparr>\<rparr>, None)"
  by code_simp

subsection \<open>Restoring a file and a link\<close>

text \<open>\<open>os.MkdirAll\<close> touches only the prefixes of its path, and leaves the path a
  directory.\<close>

lemma MkdirAll_from_other:
  "MkdirAll_from fs pre cs = Inr fs' \<Longrightarrow>
     \<not> (length pre < length q \<and> length q \<le> length pre + length cs) \<Longrightarrow>
     map_of fs' q = map_of fs q"
proof (induction cs arbitrary: fs pre)
  case Nil
  then show ?case by simp
next
  case (Cons c cs)
  have ne: "q \<noteq> pre @ [c]" using Cons.prems(2) by auto
  have l: "\<not> (length (pre @ [c]) < length q \<and> length q \<le> length (pre @ [c]) + length cs)"
    using Cons.prems(2) by auto
  show ?case
  proof (cases "map_of fs (pre @ [c])")
    case None
    with Cons.prems have m: "MkdirAll_from (AList.update (pre @ [c]) DirNode fs) (pre @ [c]) cs = Inr fs'"
      by simp
    show ?thesis using Cons.IH[OF m l] ne by (simp add: map_of_update)
  next
    case (Some a)
    with Cons.prems show ?thesis using Cons.IH[OF _ l] by (cases a) auto
  qed
qed

lemma MkdirAll_from_dir:
  "MkdirAll_from fs pre cs = Inr fs' \<Longrightarrow> cs \<noteq> [] \<Longrightarrow> map_of fs' (pre @ cs) = Some DirNode"
proof (induction cs arbitrary: fs pre)
  case Nil
  then show ?case by simp
next
  case (Cons c cs)
  show ?case
  proof (cases "map_of fs (pre @ [c])")
    case None
    with Cons.prems have m: "MkdirAll_from (AList.update (pre @ [c]) DirNode fs) (pre @ [c]) cs = Inr fs'"
      by simp
    show ?thesis
    proof (cases "cs = []")
      case True
      then show ?thesis using m by (auto simp: map_of_update)
    next
      case False
      then show ?thesis using Cons.IH[OF m] by simp
    qed
  next
    case (Some a)
    show ?thesis
    proof (cases a)
      case DirNode
      with Some Cons.prems have m: "MkdirAll_from fs (pre @ [c]) cs = Inr fs'" by simp
      show ?thesis
      proof (cases "cs = []")
        case True
        then show ?thesis using m Some DirNode by simp
      next
        case False
        then show ?thesis using Cons.IH[OF m] by simp
      qed
    qed (use Some Cons.prems in auto)
  qed
qed

lemma os_MkdirAll_parent:
  assumes "os_MkdirAll fs (butlast dest) = Inr fs1"
  shows "map_of fs1 dest = map_of fs dest"
    and "butlast dest \<noteq> [] \<Longrightarrow> map_of fs1 (butlast dest) = Some DirNode"
proof -
  show "map_of fs1 dest = map_of fs dest"
  proof (cases "dest = []")
    case True
    then show ?thesis using assms by (simp add: os_MkdirAll_def)
  next
    case False
    then have "length dest = length (butlast dest) + 1" by simp
    then show ?thesis using MkdirAll_from_other[of fs "[]" "butlast dest" fs1 dest] assms
      by (simp add: os_MkdirAll_def)
  qed
  show "butlast dest \<noteq> [] \<Longrightarrow> map_of fs1 (butlast dest) = Some DirNode"
    using MkdirAll_from_dir[of fs "[]" "butlast dest" fs1] assms by (simp add: os_MkdirAll_def)
qed

lemma butlast_ne: "butlast dest \<noteq> dest \<or> dest = []"
  by (cases dest rule: rev_cases) auto

lemma os_Open_Inr:
  "os_Open fs p = Inr f \<Longrightarrow> map_of fs p = Some f \<and> (\<forall>t. f \<noteq> LinkNode t)"
  by (auto simp: os_Open_def os_Stat_def os_Lstat_def split: if_splits option.splits sum.splits fnode.splits)

lemma gzip_NewReader_stream:
  "gzip_NewReader L f = GzStream d e \<Longrightarrow> \<exists>bs m. f = RegFile bs m \<and> gunzip L bs = GzStream d e"
  by (cases f) (auto simp: gzip_NewReader_def)

lemma BackupFile_Restore_ok:
  assumes r: "BackupFile_Restore L b fs h dest = (fs', None)"
  shows "\<exists>bs m gdata. map_of fs (DataStore b h) = Some (RegFile bs m) \<and>
           gunzip L bs = GzStream gdata False \<and>
           (butlast dest \<noteq> [] \<longrightarrow> map_of fs' (butlast dest) = Some DirNode) \<and>
           map_of fs' dest = Some (RegFile gdata
              (case map_of fs dest of Some (RegFile bs0 m0) \<Rightarrow> m0 | _ \<Rightarrow> create_mode L))"
proof -
  from r obtain src where o: "os_Open fs (DataStore b h) = Inr src"
    by (auto simp: BackupFile_Restore_def split: sum.splits)
  from r o obtain gdata berr where g: "gzip_NewReader L src = GzStream gdata berr"
    by (auto simp: BackupFile_Restore_def split: gz_stream.splits)
  from r o g obtain fs1 where mk: "os_MkdirAll fs (butlast dest) = Inr fs1"
    by (auto simp: BackupFile_Restore_def split: sum.splits)
  from r o g mk obtain fs2 where cr: "os_Create L fs1 dest = Inr fs2"
    by (auto simp: BackupFile_Restore_def split: sum.splits)
  from r o g mk cr have be: "\<not> berr" and f': "fs' = write_bytes fs2 dest gdata"
    by (auto simp: BackupFile_Restore_def split: if_splits)
  from gzip_NewReader_stream[OF g] os_Open_Inr[OF o] obtain bs m where
    s: "map_of fs (DataStore b h) = Some (RegFile bs m)" "gunzip L bs = GzStream gdata berr"
    by auto
  have ne: "dest \<noteq> []" using cr by (auto simp: os_Create_def split: if_splits)
  let ?m = "case map_of fs dest of Some (RegFile bs0 m0) \<Rightarrow> m0 | _ \<Rightarrow> create_mode L"
  have c: "map_of fs2 dest = Some (RegFile [] ?m)" "\<forall>q. q \<noteq> dest \<longrightarrow> map_of fs2 q = map_of fs1 q"
    using os_Create_map[OF cr] os_MkdirAll_parent(1)[OF mk] by auto
  have d: "map_of fs' dest = Some (RegFile gdata ?m)"
    unfolding f' using write_bytes_map[OF c(1)] by simp
  have p: "butlast dest \<noteq> [] \<longrightarrow> map_of fs' (butlast dest) = Some DirNode"
    unfolding f' using write_bytes_map[OF c(1), of gdata "butlast dest"] c(2) butlast_ne[of dest] ne
      os_MkdirAll_parent(2)[OF mk] by auto
  show ?thesis using s be d p by auto
qed

lemma os_Remove_map:
  "os_Remove fs p = Inr fs' \<Longrightarrow> map_of fs' q = (if q = p then None else map_of fs q)"
  by (auto simp: os_Remove_def map_of_delete split: if_splits option.splits fnode.splits)

lemma os_Symlink_map:
  "os_Symlink fs t p = Inr fs' \<Longrightarrow>
     map_of fs p = None \<and> map_of fs' q = (if q = p then Some (LinkNode t) else map_of fs q)"
  by (auto simp: os_Symlink_def map_of_update split: if_splits option.splits fnode.splits)

lemma BackupLink_Restore_ok:
  assumes r: "BackupLink_Restore L b fs h dest = (fs', None)"
  shows "\<exists>bs m target. map_of fs (DataStore b h) = Some (RegFile bs m) \<and>
           gunzip L bs = GzStream target False \<and>
           (butlast dest \<noteq> [] \<longrightarrow> map_of fs' (butlast dest) = Some DirNode) \<and>
           map_of fs' dest = Some (LinkNode target) \<and>
           (\<forall>q. q \<noteq> dest \<and> \<not> (length q < length dest) \<longrightarrow> map_of fs' q = map_of fs q)"
proof -
  from r obtain src where o: "os_Open fs (DataStore b h) = Inr src"
    by (auto simp: BackupLink_Restore_def split: sum.splits)
  from r o obtain target berr where g: "gzip_NewReader L src = GzStream target berr"
    by (auto simp: BackupLink_Restore_def split: gz_stream.splits)
  from r o g have be: "\<not> berr" by (auto simp: BackupLink_Restore_def split: if_splits)
  from r o g be obtain fs1 where mk: "os_MkdirAll fs (butlast dest) = Inr fs1"
    by (auto simp: BackupLink_Restore_def split: sum.splits)
  from gzip_NewReader_stream[OF g] os_Open_Inr[OF o] obtain bs m where
    s: "map_of fs (DataStore b h) = Some (RegFile bs m)" "gunzip L bs = GzStream target berr"
    by auto
  obtain fs2 where rm: "fs2 = fs1 \<or> os_Remove fs1 dest = Inr fs2"
    and sl: "os_Symlink fs2 target dest = Inr fs'"
    using r o g be mk by (auto simp: BackupLink_Restore_def split: sum.splits)
  have ne: "dest \<noteq> []" using sl by (auto simp: os_Symlink_def split: if_splits)
  have o2: "\<forall>q. q \<noteq> dest \<longrightarrow> map_of fs2 q = map_of fs1 q"
    using rm os_Remove_map by auto
  have d: "map_of fs' dest = Some (LinkNode target)"
    and o3: "\<forall>q. q \<noteq> dest \<longrightarrow> map_of fs' q = map_of fs2 q"
    using os_Symlink_map[OF sl] by auto
  have p: "butlast dest \<noteq> [] \<longrightarrow> map_of fs' (butlast dest) = Some DirNode"
    using o2 o3 butlast_ne[of dest] ne os_MkdirAll_parent(2)[OF mk] by auto
  have o1: "\<forall>q. \<not> (length q < length dest) \<longrightarrow> map_of fs1 q = map_of fs q"
  proof (intro allI impI)
    fix q :: path
    assume "\<not> length q < length dest"
    then have "\<not> (length ([] :: path) < length q \<and> length q \<le> length ([] :: path) + length (butlast dest))"
      using ne by (cases dest) auto
    then show "map_of fs1 q = map_of fs q"
      using MkdirAll_from_other[of fs "[]" "butlast dest" fs1 q] mk by (simp add: os_MkdirAll_def)
  qed
  show ?thesis using s be d p o1 o2 o3 by auto
qed

text \<open>Claim C7, as amended. A successful restore of a file entry (to a destination other
  than the blob itself) has read a blob that decompresses without error, leaves the parent
  of the destination a directory, and leaves at the destination a regular file holding the
  decompressed bytes; its mode is the one the destination had when it was a regular file
  already, and otherwise the bits of 0666 (438) that the umask leaves, which is 0644 (420)
  when the umask clears exactly the bits 022 (18) of 0666. A successful restore of a link
  entry has read a blob that decompresses without error to the target, leaves the parent
  of the destination a directory, and leaves at the destination a symlink with that
  target, whatever was at the destination before; nothing else at or below the depth of
  the destination changes.\<close>

theorem Restore_file_and_link:
  "(dest \<noteq> DataStore b h \<and> BackupFile_Restore L b fs h dest = (fs', None) \<longrightarrow>
      (\<exists>bs m gdata. map_of fs (DataStore b h) = Some (RegFile bs m) \<and>
           gunzip L bs = GzStream gdata False \<and>
           (butlast dest \<noteq> [] \<longrightarrow> map_of fs' (butlast dest) = Some DirNode) \<and>
           map_of fs' dest = Some (RegFile gdata
              (case map_of fs dest of Some (RegFile bs0 m0) \<Rightarrow> m0 | _ \<Rightarrow> create_mode L))))
   \<and> (438 AND umask L = 18 \<longrightarrow> create_mode L = 420)
   \<and> (BackupLink_Restore L b fs h dest = (fs', None) \<longrightarrow>
      (\<exists>bs m target. map_of fs (DataStore b h) = Some (RegFile bs m) \<and>
           gunzip L bs = GzStream target False \<and>
           (butlast dest \<noteq> [] \<longrightarrow> map_of fs' (butlast dest) = Some DirNode) \<and>
           map_of fs' dest = Some (LinkNode target) \<and>
           (\<forall>q. q \<noteq> dest \<and> \<not> (length q < length dest) \<longrightarrow> map_of fs' q = map_of fs q)))"
  using BackupFile_Restore_ok[of L b fs h dest fs'] BackupLink_Restore_ok[of L b fs h dest fs']
  by (simp add: create_mode_def)

theorem Restore_file_and_link_witness:
  "BackupFile_Restore toy ex_backup ex_store2 ex_digest [''out'', ''a.txt''] =
     (ex_store2 @ [([''out''], DirNode), ([''out'', ''a.txt''], RegFile ''hi'' 420)], None)
   \<and> map_of (ex_store2 @ [([''out''], DirNode), ([''out'', ''a.txt''], RegFile ''hi'' 420)])
         [''out'', ''a.txt''] = Some (RegFile ''hi'' (create_mode toy))
   \<and> create_mode toy = 420
   \<and> BackupLink_Restore toy ex_backup
         (ex_store2 @ [([''out''], DirNode), ([''out'', ''l''], RegFile ''old'' 384)])
         ex_link_hash [''out'', ''l''] =
     (ex_store2 @ [([''out''], DirNode), ([''out'', ''l''], LinkNode ''a.txt'')], None)
   \<and> map_of (ex_store2 @ [([''out''], DirNode), ([''out'', ''l''], LinkNode ''a.txt'')])
         [''out'', ''l''] = Some (LinkNode ''a.txt'')
   \<and> map_of (ex_store2 @ [([''out''], DirNode), ([''out'', ''l''], LinkNode ''a.txt'')])
         [''out''] = Some DirNode"
proof -
  let ?d = "[''out'', ''a.txt'']"
  let ?l = "[''out'', ''l'']"
  let ?r1 = "ex_store2 @ [([''out''], DirNode), ([''out'', ''a.txt''], RegFile ''hi'' 420)]"
  let ?f2 = "ex_store2 @ [([''out''], DirNode), ([''out'', ''l''], RegFile ''old'' 384)]"
  let ?r2 = "ex_store2 @ [([''out''], DirNode), ([''out'', ''l''], LinkNode ''a.txt'')]"
  have a: "BackupFile_Restore toy ex_backup ex_store2 ex_digest ?d = (?r1, None)" by code_simp
  have b: "BackupLink_Restore toy ex_backup ?f2 ex_link_hash ?l = (?r2, None)" by code_simp
  have ne: "?d \<noteq> DataStore ex_backup ex_digest" by code_simp
  have u: "438 AND umask toy = 18" by code_simp
  have s1: "map_of ex_store2 (DataStore ex_backup ex_digest) = Some (RegFile ''GZhi'' 420)"
    by code_simp
  have g1: "gunzip toy ''GZhi'' = GzStream ''hi'' False" by code_simp
  have n1: "map_of ex_store2 ?d = None" by code_simp
  have s2: "map_of ?f2 (DataStore ex_backup ex_link_hash) = Some (RegFile ''GZa.txt'' 420)"
    by code_simp
  have g2: "gunzip toy ''GZa.txt'' = GzStream ''a.txt'' False" by code_simp
  note f = Restore_file_and_link[where L = toy and b = ex_backup and fs = ex_store2
      and h = ex_digest and dest = ?d and fs' = ?r1]
  note l = Restore_file_and_link[where L = toy and b = ex_backup and fs = ?f2
      and h = ex_link_hash and dest = ?l and fs' = ?r2]
  have c1: "map_of ?r1 ?d = Some (RegFile ''hi'' (create_mode toy))"
    using f a ne s1 g1 n1 by auto
  have c2: "create_mode toy = 420" using f u by blast
  have c3: "map_of ?r2 ?l = Some (LinkNode ''a.txt'')" "map_of ?r2 [''out''] = Some DirNode"
    using l b s2 g2 by auto
  show ?thesis using a b c1 c2 c3 by blast
qed

text \<open>Claim C7 as stated does not hold: the mode of a restored file is not always 0644.
  The file is made by \<open>os.Create\<close> and its mode is never set afterwards: under the
  umask 077 (63) a new file gets 0600 (384), and under the umask 022 a destination that
  was a file of mode 0600 keeps 0600.\<close>

theorem restored_mode_is_not_always_0644:
  "BackupFile_Restore (toy\<lparr>umask := 63\<rparr>) ex_backup ex_store2 ex_digest [''out'', ''a.txt''] =
     (ex_store2 @ [([''out''], DirNode), ([''out'', ''a.txt''], RegFile ''hi'' 384)], None)
   \<and> BackupFile_Restore toy ex_backup
         (ex_store2 @ [([''out''], DirNode), ([''out'', ''a.txt''], RegFile ''old'' 384)])
         ex_digest [''out'', ''a.txt''] =
     (ex_store2 @ [([''out''], DirNode), ([''out'', ''a.txt''], RegFile ''hi'' 384)], None)"
  by code_simp

subsection \<open>The traversal of the reachable blobs ends\<close>








subsection \<open>Unreferenced blobs and pruning\<close>
















subsection \<open>The heads that reachability starts from\<close>

lemma project_roots_heads:
  "r \<in> set (project_roots L fs pdir files) \<Longrightarrow>
     \<exists>f. BackupHead r = pdir @ [f] \<and> NewBackupRoot L fs (pdir @ [f]) = Inr r"
proof -
  let ?g = "\<lambda>f. if snd f = DirNode then None
      else (case NewBackupRoot L fs (pdir @ [fst f]) of Inl e \<Rightarrow> None | Inr root \<Rightarrow> Some root)"
  assume "r \<in> set (project_roots L fs pdir files)"
  then have "r \<in> set (map (the \<circ> ?g) (filter (\<lambda>x. ?g x \<noteq> None) files))"
    by (simp add: project_roots_def map_filter_def)
  then obtain f where f: "?g f \<noteq> None" "r = the (?g f)" by auto
  then have n: "NewBackupRoot L fs (pdir @ [fst f]) = Inr r"
    by (auto split: if_splits sum.splits)
  then have "BackupHead r = pdir @ [fst f]"
    by (auto simp: NewBackupRoot_def Let_def split: option.splits sum.splits if_splits)
  then show ?thesis using n by blast
qed

lemma all_project_roots_heads:
  "r \<in> set (all_project_roots L fs sd params) \<Longrightarrow>
     \<exists>p f. (p, DirNode) \<in> set params \<and> BackupHead r = sd @ [p, f] \<and>
           NewBackupRoot L fs (sd @ [p, f]) = Inr r"
proof -
  assume "r \<in> set (all_project_roots L fs sd params)"
  then obtain p files where p: "p \<in> set params" "snd p = DirNode"
    "r \<in> set (project_roots L fs (sd @ [fst p]) files)"
    by (auto simp: all_project_roots_def split: if_splits sum.splits)
  from project_roots_heads[OF p(3)] obtain f where
    "BackupHead r = (sd @ [fst p]) @ [f]" "NewBackupRoot L fs ((sd @ [fst p]) @ [f]) = Inr r"
    by blast
  moreover have "(fst p, DirNode) = p" using p(2) by (cases p) simp
  then have "(fst p, DirNode) \<in> set params" using p(1) by simp
  ultimately show ?thesis by auto
qed

text \<open>Claim C1. Every head that \<open>AllBackupRoots\<close> enumerates is a file in a directory
  directly below \<open>snapshots\<close>, one that \<open>NewBackupRoot\<close> accepts. The head of a
  source without a project name, which \<open>runBackup\<close> writes directly below
  \<open>snapshots\<close>, is therefore never enumerated, whatever the store holds: the claim
  fails for the heads of the legacy layout.\<close>

theorem legacy_heads_are_not_enumerated:
  "AllBackupRoots L b fs = Inr roots \<longrightarrow>
     (\<forall>r \<in> set roots. \<exists>p f. BackupHead r = StoreSnapshots b @ [p, f] \<and>
                              NewBackupRoot L fs (StoreSnapshots b @ [p, f]) = Inr r)
     \<and> (ProjectName b = [] \<longrightarrow> headFile b timestamp \<notin> BackupHead ` set roots)"
proof
  assume a: "AllBackupRoots L b fs = Inr roots"
  have h: "\<forall>r \<in> set roots. \<exists>p f. BackupHead r = StoreSnapshots b @ [p, f] \<and>
                              NewBackupRoot L fs (StoreSnapshots b @ [p, f]) = Inr r"
  proof (cases "os_ReadDir fs (StoreSnapshots b)")
    case (Inl e)
    then show ?thesis using a by (auto simp: AllBackupRoots_def split: if_splits)
  next
    case (Inr params)
    then have "set roots = set (all_project_roots L fs (StoreSnapshots b) params)"
      using a by (auto simp: AllBackupRoots_def)
    then show ?thesis using all_project_roots_heads by blast
  qed
  have "ProjectName b = [] \<longrightarrow> headFile b timestamp \<notin> BackupHead ` set roots"
  proof
    assume pn: "ProjectName b = []"
    show "headFile b timestamp \<notin> BackupHead ` set roots"
    proof
      assume "headFile b timestamp \<in> BackupHead ` set roots"
      then obtain r where "r \<in> set roots" "BackupHead r = headFile b timestamp" by auto
      then obtain p f where "headFile b timestamp = StoreSnapshots b @ [p, f]" using h by metis
      then show False using pn by (simp add: headFile_def)
    qed
  qed
  then show "(\<forall>r \<in> set roots. \<exists>p f. BackupHead r = StoreSnapshots b @ [p, f] \<and>
                              NewBackupRoot L fs (StoreSnapshots b @ [p, f]) = Inr r)
     \<and> (ProjectName b = [] \<longrightarrow> headFile b timestamp \<notin> BackupHead ` set roots)"
    using h by blast
qed

theorem legacy_heads_are_not_enumerated_witness:
  "AllBackupRoots toy ex_legacy_backup
      (ex_store_legacy @
        [([''st'', ''snapshots'', ''proj''], DirNode),
         ([''st'', ''snapshots'', ''proj'', ''261031-130000''], RegFile (ex_dir_hash @ [LF]) 420)]) =
     Inr [\<lparr> Time = 0, BackupHead = [''st'', ''snapshots'', ''proj'', ''261031-130000''],
            root_hash = ex_dir_hash \<rparr>]
   \<and> headFile ex_legacy_backup ''261031-120000'' = [''st'', ''snapshots'', ''261031-120000'']
   \<and> headFile ex_legacy_backup ''261031-120000'' \<notin>
       BackupHead ` set [\<lparr> Time = 0, BackupHead = [''st'', ''snapshots'', ''proj'', ''261031-130000''],
                          root_hash = ex_dir_hash \<rparr>]"
proof -
  let ?fs = "ex_store_legacy @
        [([''st'', ''snapshots'', ''proj''], DirNode),
         ([''st'', ''snapshots'', ''proj'', ''261031-130000''], RegFile (ex_dir_hash @ [LF]) 420)]"
  let ?roots = "[\<lparr> Time = 0, BackupHead = [''st'', ''snapshots'', ''proj'', ''261031-130000''],
            root_hash = ex_dir_hash \<rparr>]"
  have a: "AllBackupRoots toy ex_legacy_backup ?fs = Inr ?roots" by code_simp
  have p: "ProjectName ex_legacy_backup = []" by code_simp
  have h: "headFile ex_legacy_backup ''261031-120000'' = [''st'', ''snapshots'', ''261031-120000'']"
    by code_simp
  have "headFile ex_legacy_backup ''261031-120000'' \<notin> BackupHead ` set ?roots"
    using legacy_heads_are_not_enumerated[where L = toy and b = ex_legacy_backup and fs = ?fs
        and roots = ?roots and timestamp = "''261031-120000''"] a p by blast
  then show ?thesis using a h by blast
qed

text \<open>The failing input of claim C1: the store after the first backup of a source
  without a project name. The head is well formed, yet no head is enumerated, no blob is
  marked reachable, both blobs of the snapshot are reported as unreferenced, and
  \<open>Prune\<close> removes them.\<close>

theorem prune_deletes_legacy_snapshot:
  "Save toy ex_legacy_backup ex_src ex_dir_entry ex_world0 = (ex_world1, None)
   \<and> Hash toy ex_dir_entry = Inr ex_dir_hash
   \<and> write_head ex_legacy_backup (w_fs ex_world1) ''261031-120000'' ex_dir_hash = Inr ex_store_legacy
   \<and> NewBackupRoot toy ex_store_legacy (headFile ex_legacy_backup ''261031-120000'') =
        Inr \<lparr> Time = 0, BackupHead = [''st'', ''snapshots'', ''261031-120000''],
              root_hash = ex_dir_hash \<rparr>
   \<and> AllBackupRoots toy ex_legacy_backup ex_store_legacy = Inr []
   \<and> GetReachableBlobs toy ex_legacy_backup ex_store_legacy = Inr {}
   \<and> FindUnreferenced toy ex_legacy_backup ex_store_legacy = Inr [ex_dir_hash, ex_digest]
   \<and> Prune toy ex_legacy_backup ex_store_legacy False =
        ([([''st''], DirNode), ([''st'', ''data''], DirNode),
          ([''st'', ''data'', ''01''], DirNode), ([''st'', ''data'', ''F ''], DirNode),
          ([''st'', ''snapshots''], DirNode),
          ([''st'', ''snapshots'', ''261031-120000''], RegFile (ex_dir_hash @ [LF]) 420)],
         \<lparr> BlobsRemoved = 2, BytesRemoved = 47 \<rparr>, None)"
  by code_simp

subsection \<open>The integrity check on a blob whose bytes were replaced\<close>


























subsection \<open>What the traversal marks as reachable\<close>

text \<open>
  When \<open>GetReachableBlobs\<close> succeeds, it returns exactly the closure of the root
  digests of the heads that \<open>AllBackupRoots\<close> enumerates: nothing outside the closure is
  marked, and the traversal leaves every visited directory with all its children marked
  and its directory children visited.
\<close>

lemma set_map_filter_iff:
  "y \<in> set (List.map_filter f xs) \<longleftrightarrow> (\<exists>x \<in> set xs. f x = Some y)"
  by (induction xs) (auto simp: map_filter_simps split: option.splits)

lemma listing_children_lines:
  assumes "os_Open fs (DataStore b hash) = Inr f" "gzip_NewReader L f = GzStream gdata berr"
  shows "tc \<in> set (listing_children L b fs hash) \<longleftrightarrow>
           (\<exists>line \<in> set (fst (scanner_lines gdata berr)). traverse_line line = Some tc)"
  using assms by (simp add: listing_children_def set_map_filter_iff)

lemma traverseReachable_sound:
  "hash \<in> listed_dirs L b fs R \<Longrightarrow> visitedDirs st \<subseteq> listed_dirs L b fs R \<Longrightarrow>
   reachable st \<subseteq> closure_of L b fs R \<Longrightarrow>
     visitedDirs (fst (traverseReachable n L b fs hash st)) \<subseteq> listed_dirs L b fs R \<and>
     reachable (fst (traverseReachable n L b fs hash st)) \<subseteq> closure_of L b fs R"
  "(\<forall>line \<in> set ls. \<forall>t c. traverse_line line = Some (t, c) \<longrightarrow>
       c \<in> closure_of L b fs R \<and> (t = CHR ''D'' \<longrightarrow> c \<in> listed_dirs L b fs R)) \<Longrightarrow>
   visitedDirs st \<subseteq> listed_dirs L b fs R \<Longrightarrow> reachable st \<subseteq> closure_of L b fs R \<Longrightarrow>
     visitedDirs (fst (traverseReachable_loop n L b fs ls st)) \<subseteq> listed_dirs L b fs R \<and>
     reachable (fst (traverseReachable_loop n L b fs ls st)) \<subseteq> closure_of L b fs R"
proof (induction n L b fs hash st and n L b fs ls st
       rule: traverseReachable_traverseReachable_loop.induct)
  case (1 L b fs hash st)
  then show ?case by simp
next
  case (2 n L b fs hash st)
  let ?st1 = "st\<lparr>visitedDirs := insert hash (visitedDirs st)\<rparr>"
  have v1: "visitedDirs ?st1 \<subseteq> listed_dirs L b fs R" using "2.prems" by simp
  have r1: "reachable ?st1 \<subseteq> closure_of L b fs R" using "2.prems" by simp
  show ?case
  proof (cases "os_Open fs (DataStore b hash)")
    case (Inl e)
    then show ?thesis using v1 r1 by (simp add: Let_def)
  next
    case (Inr f)
    show ?thesis
    proof (cases "gzip_NewReader L f")
      case GzHeaderError
      then show ?thesis using Inr v1 r1 by (simp add: Let_def)
    next
      case (GzStream gdata berr)
      have ch: "\<forall>line \<in> set (fst (scanner_lines gdata berr)). \<forall>t c.
          traverse_line line = Some (t, c) \<longrightarrow>
          c \<in> closure_of L b fs R \<and> (t = CHR ''D'' \<longrightarrow> c \<in> listed_dirs L b fs R)"
      proof (intro ballI allI impI)
        fix line t c
        assume "line \<in> set (fst (scanner_lines gdata berr))" "traverse_line line = Some (t, c)"
        then have m: "(t, c) \<in> set (listing_children L b fs hash)"
          using listing_children_lines[OF Inr GzStream] by blast
        then have "c \<in> closure_of L b fs R" using "2.prems"(1) by (auto simp: closure_of_def)
        moreover have "t = CHR ''D'' \<longrightarrow> c \<in> listed_dirs L b fs R"
          using m "2.prems"(1) by (auto intro: listed_dirs.child)
        ultimately show "c \<in> closure_of L b fs R \<and> (t = CHR ''D'' \<longrightarrow> c \<in> listed_dirs L b fs R)"
          by simp
      qed
      note ih = "2.IH"[OF refl Inr GzStream ch v1 r1]
      obtain st2 r where l: "traverseReachable_loop n L b fs (fst (scanner_lines gdata berr)) ?st1 = (st2, r)"
        by (cases "traverseReachable_loop n L b fs (fst (scanner_lines gdata berr)) ?st1")
      show ?thesis using ih l Inr GzStream by (cases r) (simp_all add: Let_def)
    qed
  qed
next
  case (3 n L b fs st)
  then show ?case by simp
next
  case (4 n L b fs line ls st)
  have rest: "\<forall>line \<in> set ls. \<forall>t c. traverse_line line = Some (t, c) \<longrightarrow>
       c \<in> closure_of L b fs R \<and> (t = CHR ''D'' \<longrightarrow> c \<in> listed_dirs L b fs R)"
    using "4.prems"(1) by simp
  show ?case
  proof (cases "traverse_line line")
    case None
    then show ?thesis using "4.IH"(1)[OF None rest "4.prems"(2,3)] by simp
  next
    case (Some a)
    obtain tchar childHash where a: "a = (tchar, childHash)" by (cases a)
    have c: "childHash \<in> closure_of L b fs R" "tchar = CHR ''D'' \<longrightarrow> childHash \<in> listed_dirs L b fs R"
      using "4.prems"(1) Some a by simp_all
    let ?st1 = "st\<lparr>reachable := insert childHash (reachable st)\<rparr>"
    have v1: "visitedDirs ?st1 \<subseteq> listed_dirs L b fs R" using "4.prems" by simp
    have r1: "reachable ?st1 \<subseteq> closure_of L b fs R" using "4.prems" c by simp
    show ?thesis
    proof (cases "tchar = CHR ''D'' \<and> childHash \<notin> visitedDirs ?st1")
      case True
      obtain st2 r where t: "traverseReachable n L b fs childHash ?st1 = (st2, r)"
        by (cases "traverseReachable n L b fs childHash ?st1")
      have cd: "childHash \<in> listed_dirs L b fs R" using c True by simp
      have ih2: "visitedDirs st2 \<subseteq> listed_dirs L b fs R" "reachable st2 \<subseteq> closure_of L b fs R"
        using "4.IH"(2)[OF Some a[symmetric] refl True cd v1 r1] t by simp_all
      show ?thesis
      proof (cases r)
        case None
        show ?thesis
          using "4.IH"(3)[OF Some a[symmetric] refl True t[symmetric] None rest ih2]
            \<open>traverse_line line = Some a\<close> a True t None by (simp add: Let_def)
      next
        case (Some e)
        then show ?thesis using \<open>traverse_line line = Some a\<close> a True t ih2 by (simp add: Let_def)
      qed
    next
      case False
      show ?thesis
        using "4.IH"(4)[OF Some a[symmetric] refl False rest v1 r1] Some a False
        by (auto simp: Let_def)
    qed
  qed
qed

lemma reach_closed_grow:
  assumes "reach_closed L b fs S st" "visitedDirs st' - S' \<subseteq> visitedDirs st - S"
    "reachable st \<subseteq> reachable st'" "visitedDirs st \<subseteq> visitedDirs st'"
  shows "reach_closed L b fs S' st'"
  unfolding reach_closed_def
proof (intro ballI)
  fix d tc
  assume d: "d \<in> visitedDirs st' - S'" and tc: "tc \<in> set (listing_children L b fs d)"
  have "d \<in> visitedDirs st - S" using d assms(2) by blast
  then have "snd tc \<in> reachable st \<and> (fst tc = CHR ''D'' \<longrightarrow> snd tc \<in> visitedDirs st)"
    using assms(1) tc by (simp add: reach_closed_def)
  then show "snd tc \<in> reachable st' \<and> (fst tc = CHR ''D'' \<longrightarrow> snd tc \<in> visitedDirs st')"
    using assms(3,4) by blast
qed

lemma traverseReachable_complete:
  "reach_closed L b fs S st \<Longrightarrow> traverseReachable n L b fs hash st = (st', None) \<Longrightarrow>
     reach_closed L b fs S st' \<and> hash \<in> visitedDirs st' \<and>
     visitedDirs st \<subseteq> visitedDirs st' \<and> reachable st \<subseteq> reachable st'"
  "reach_closed L b fs S st \<Longrightarrow> traverseReachable_loop n L b fs ls st = (st', None) \<Longrightarrow>
     reach_closed L b fs S st' \<and>
     visitedDirs st \<subseteq> visitedDirs st' \<and> reachable st \<subseteq> reachable st' \<and>
     (\<forall>line \<in> set ls. \<forall>t c. traverse_line line = Some (t, c) \<longrightarrow>
         c \<in> reachable st' \<and> (t = CHR ''D'' \<longrightarrow> c \<in> visitedDirs st'))"
proof (induction n L b fs hash st and n L b fs ls st arbitrary: S st' and S st'
       rule: traverseReachable_traverseReachable_loop.induct)
  case (1 L b fs hash st)
  then show ?case by simp
next
  case (2 n L b fs hash st)
  let ?st1 = "st\<lparr>visitedDirs := insert hash (visitedDirs st)\<rparr>"
  have c1: "reach_closed L b fs (insert hash S) ?st1"
    using "2.prems"(1) by (rule reach_closed_grow) auto
  show ?case
  proof (cases "os_Open fs (DataStore b hash)")
    case (Inl e)
    then have st': "st' = ?st1" using "2.prems"(2) by (auto simp: Let_def split: if_splits)
    have nc: "listing_children L b fs hash = []" using Inl by (simp add: listing_children_def)
    have "reach_closed L b fs S ?st1"
      unfolding reach_closed_def
    proof (intro ballI)
      fix d tc
      assume d: "d \<in> visitedDirs ?st1 - S" and tc: "tc \<in> set (listing_children L b fs d)"
      then have "d \<noteq> hash" using nc by auto
      then have "d \<in> visitedDirs ?st1 - insert hash S" using d by simp
      then show "snd tc \<in> reachable ?st1 \<and> (fst tc = CHR ''D'' \<longrightarrow> snd tc \<in> visitedDirs ?st1)"
        using c1 tc unfolding reach_closed_def by blast
    qed
    then show ?thesis unfolding st' by auto
  next
    case (Inr f)
    show ?thesis
    proof (cases "gzip_NewReader L f")
      case GzHeaderError
      then show ?thesis using Inr "2.prems"(2) by (simp add: Let_def)
    next
      case (GzStream gdata berr)
      obtain st2 r where l: "traverseReachable_loop n L b fs (fst (scanner_lines gdata berr)) ?st1 = (st2, r)"
        by (cases "traverseReachable_loop n L b fs (fst (scanner_lines gdata berr)) ?st1")
      have r: "r = None" and st': "st' = st2"
        using "2.prems"(2) Inr GzStream l by (cases r; simp add: Let_def split: if_splits)+
      note ih = "2.IH"[OF refl Inr GzStream c1 l[unfolded r]]
      have v: "visitedDirs ?st1 \<subseteq> visitedDirs st2" "reachable ?st1 \<subseteq> reachable st2"
        using ih by simp_all
      have "reach_closed L b fs S st2"
        unfolding reach_closed_def
      proof (intro ballI)
        fix d tc
        assume d: "d \<in> visitedDirs st2 - S" and tc: "tc \<in> set (listing_children L b fs d)"
        show "snd tc \<in> reachable st2 \<and> (fst tc = CHR ''D'' \<longrightarrow> snd tc \<in> visitedDirs st2)"
        proof (cases "d = hash")
          case True
          then obtain line where "line \<in> set (fst (scanner_lines gdata berr))"
            "traverse_line line = Some tc"
            using tc listing_children_lines[OF Inr GzStream] by blast
          then have "traverse_line line = Some (fst tc, snd tc)" by simp
          then show ?thesis using ih \<open>line \<in> set (fst (scanner_lines gdata berr))\<close> by blast
        next
          case False
          then have "d \<in> visitedDirs st2 - insert hash S" using d by simp
          then show ?thesis using ih tc unfolding reach_closed_def by blast
        qed
      qed
      then show ?thesis unfolding st' using v by auto
    qed
  qed
next
  case (3 n L b fs st)
  then show ?case by simp
next
  case (4 n L b fs line ls st)
  show ?case
  proof (cases "traverse_line line")
    case None
    then have l: "traverseReachable_loop n L b fs ls st = (st', None)" using "4.prems"(2) by simp
    show ?thesis using "4.IH"(1)[OF None "4.prems"(1) l] None by simp
  next
    case (Some a)
    obtain tchar childHash where a: "a = (tchar, childHash)" by (cases a)
    let ?st1 = "st\<lparr>reachable := insert childHash (reachable st)\<rparr>"
    have c1: "reach_closed L b fs S ?st1"
      using "4.prems"(1) by (rule reach_closed_grow) auto
    show ?thesis
    proof (cases "tchar = CHR ''D'' \<and> childHash \<notin> visitedDirs ?st1")
      case True
      obtain st2 r where t: "traverseReachable n L b fs childHash ?st1 = (st2, r)"
        by (cases "traverseReachable n L b fs childHash ?st1")
      have r: "r = None" using "4.prems"(2) Some a True t by (cases r) (simp_all add: Let_def)
      have l: "traverseReachable_loop n L b fs ls st2 = (st', None)"
        using "4.prems"(2) Some a True t r by (simp add: Let_def)
      note ih2 = "4.IH"(2)[OF Some a[symmetric] refl True c1 t[unfolded r]]
      have c2: "reach_closed L b fs S st2" using ih2 by simp
      note ih3 = "4.IH"(3)[OF Some a[symmetric] refl True t[symmetric] r c2 l]
      have "childHash \<in> reachable st'" "childHash \<in> visitedDirs st'" using ih2 ih3 by auto
      moreover have "visitedDirs st \<subseteq> visitedDirs st'" "reachable st \<subseteq> reachable st'"
        using ih2 ih3 by auto
      ultimately show ?thesis using ih3 Some a by auto
    next
      case False
      have l: "traverseReachable_loop n L b fs ls ?st1 = (st', None)"
        using "4.prems"(2) Some a False by (auto simp: Let_def)
      note ih4 = "4.IH"(4)[OF Some a[symmetric] refl False c1 l]
      have "childHash \<in> reachable st'" using ih4 by auto
      moreover have "tchar = CHR ''D'' \<longrightarrow> childHash \<in> visitedDirs st'" using False ih4 by auto
      moreover have "visitedDirs st \<subseteq> visitedDirs st'" "reachable st \<subseteq> reachable st'"
        using ih4 by auto
      ultimately show ?thesis using ih4 Some a by auto
    qed
  qed
qed

lemma root_digests_Cons:
  "root_digests fs (root # roots) =
     (case BackupRoot_Hash fs root of Inl e \<Rightarrow> {} | Inr h \<Rightarrow> {h}) \<union> root_digests fs roots"
  by (auto simp: root_digests_def split: sum.splits)

lemma markReachable_closure:
  assumes m: "markReachable n L b fs h st = (st', None)"
    and c: "reach_closed L b fs {} st"
    and v: "visitedDirs st \<subseteq> listed_dirs L b fs R" and r: "reachable st \<subseteq> closure_of L b fs R"
    and h: "h \<in> R"
  shows "reach_closed L b fs {} st' \<and> visitedDirs st' \<subseteq> listed_dirs L b fs R \<and>
         reachable st' \<subseteq> closure_of L b fs R \<and> h \<in> reachable st' \<and> h \<in> visitedDirs st' \<and>
         reachable st \<subseteq> reachable st' \<and> visitedDirs st \<subseteq> visitedDirs st'"
proof -
  let ?st1 = "st\<lparr>reachable := insert h (reachable st)\<rparr>"
  have hd: "h \<in> listed_dirs L b fs R" using h by (rule listed_dirs.root)
  have hc: "h \<in> closure_of L b fs R" using h by (simp add: closure_of_def)
  have c1: "reach_closed L b fs {} ?st1" using c by (rule reach_closed_grow) auto
  have v1: "visitedDirs ?st1 \<subseteq> listed_dirs L b fs R" using v by simp
  have r1: "reachable ?st1 \<subseteq> closure_of L b fs R" using r hc by simp
  show ?thesis
  proof (cases "h \<in> visitedDirs st")
    case True
    then have "st' = ?st1" using m by (simp add: markReachable_def Let_def)
    then show ?thesis using c1 v1 r1 True by auto
  next
    case False
    then have t: "traverseReachable n L b fs h ?st1 = (st', None)"
      using m by (simp add: markReachable_def Let_def)
    have s: "visitedDirs st' \<subseteq> listed_dirs L b fs R \<and> reachable st' \<subseteq> closure_of L b fs R"
      using traverseReachable_sound(1)[OF hd v1 r1, of n] t by simp
    have k: "reach_closed L b fs {} st' \<and> h \<in> visitedDirs st' \<and>
             visitedDirs ?st1 \<subseteq> visitedDirs st' \<and> reachable ?st1 \<subseteq> reachable st'"
      using traverseReachable_complete(1)[OF c1 t] .
    show ?thesis using s k by auto
  qed
qed

lemma reachable_loop_closure:
  "reachable_loop n L b fs roots st = Inr reached \<Longrightarrow> reach_closed L b fs {} st \<Longrightarrow>
   visitedDirs st \<subseteq> listed_dirs L b fs R \<Longrightarrow> reachable st \<subseteq> closure_of L b fs R \<Longrightarrow>
   root_digests fs roots \<subseteq> R \<Longrightarrow>
     \<exists>st'. reached = reachable st' \<and> reach_closed L b fs {} st' \<and>
           visitedDirs st' \<subseteq> listed_dirs L b fs R \<and> reachable st' \<subseteq> closure_of L b fs R \<and>
           root_digests fs roots \<subseteq> reachable st' \<inter> visitedDirs st' \<and>
           reachable st \<subseteq> reachable st' \<and> visitedDirs st \<subseteq> visitedDirs st'"
proof (induction roots arbitrary: st)
  case Nil
  then show ?case by (auto simp: root_digests_def)
next
  case (Cons root roots)
  have rest: "root_digests fs roots \<subseteq> R" using Cons.prems(5) by (auto simp: root_digests_Cons)
  show ?case
  proof (cases "BackupRoot_Hash fs root")
    case (Inl e)
    then have l: "reachable_loop n L b fs roots st = Inr reached" using Cons.prems(1) by simp
    from Cons.IH[OF l Cons.prems(2,3,4) rest] show ?thesis
      using Inl by (simp add: root_digests_Cons)
  next
    case (Inr h)
    then have hR: "h \<in> R" using Cons.prems(5) by (auto simp: root_digests_Cons)
    obtain st1 r where m: "markReachable n L b fs h st = (st1, r)"
      by (cases "markReachable n L b fs h st")
    have r: "r = None" using Cons.prems(1) Inr m by (cases r) simp_all
    have l: "reachable_loop n L b fs roots st1 = Inr reached"
      using Cons.prems(1) Inr m r by simp
    note mk = markReachable_closure[OF m[unfolded r] Cons.prems(2,3,4) hR]
    from mk have c1: "reach_closed L b fs {} st1" and v1: "visitedDirs st1 \<subseteq> listed_dirs L b fs R"
      and r1: "reachable st1 \<subseteq> closure_of L b fs R" by simp_all
    from Cons.IH[OF l c1 v1 r1 rest] obtain st' where
      st': "reached = reachable st'" "reach_closed L b fs {} st'"
        "visitedDirs st' \<subseteq> listed_dirs L b fs R" "reachable st' \<subseteq> closure_of L b fs R"
        "root_digests fs roots \<subseteq> reachable st' \<inter> visitedDirs st'"
        "reachable st1 \<subseteq> reachable st'" "visitedDirs st1 \<subseteq> visitedDirs st'"
      by blast
    have "root_digests fs (root # roots) \<subseteq> reachable st' \<inter> visitedDirs st'"
      using st'(5,6,7) mk Inr by (auto simp: root_digests_Cons)
    moreover have "reachable st \<subseteq> reachable st'" "visitedDirs st \<subseteq> visitedDirs st'"
      using st'(6,7) mk by auto
    ultimately show ?thesis using st'(1-4) by blast
  qed
qed

lemma closed_covers_closure:
  assumes c: "reach_closed L b fs {} st" and roots: "R \<subseteq> reachable st \<inter> visitedDirs st"
  shows "closure_of L b fs R \<subseteq> reachable st"
proof -
  have d: "d \<in> visitedDirs st" if "d \<in> listed_dirs L b fs R" for d
    using that
  proof (induction rule: listed_dirs.induct)
    case (root h)
    then show ?case using roots by auto
  next
    case (child d c')
    then show ?case using c unfolding reach_closed_def by force
  qed
  show ?thesis
  proof
    fix x assume "x \<in> closure_of L b fs R"
    then consider "x \<in> R"
      | d t where "d \<in> listed_dirs L b fs R" "(t, x) \<in> set (listing_children L b fs d)"
      by (auto simp: closure_of_def)
    then show "x \<in> reachable st"
    proof cases
      case 1
      then show ?thesis using roots by auto
    next
      case 2
      then have "d \<in> visitedDirs st" using d by simp
      then show ?thesis using c 2(2) unfolding reach_closed_def by force
    qed
  qed
qed

lemma GetReachableBlobs_closure:
  assumes "GetReachableBlobs L b fs = Inr reached"
  shows "\<exists>roots. AllBackupRoots L b fs = Inr roots \<and>
           reached = closure_of L b fs (root_digests fs roots)"
proof -
  let ?st0 = "\<lparr> reachable = {}, visitedDirs = {} \<rparr>"
  from assms obtain roots where a: "AllBackupRoots L b fs = Inr roots"
    and l: "reachable_loop (traversal_fuel fs) L b fs roots ?st0 = Inr reached"
    by (auto simp: GetReachableBlobs_def split: sum.splits)
  let ?R = "root_digests fs roots"
  have c0: "reach_closed L b fs {} ?st0" by (simp add: reach_closed_def)
  from reachable_loop_closure[OF l c0, of ?R] obtain st' where
    st': "reached = reachable st'" "reach_closed L b fs {} st'"
      "reachable st' \<subseteq> closure_of L b fs ?R" "?R \<subseteq> reachable st' \<inter> visitedDirs st'"
    by auto
  have "closure_of L b fs ?R \<subseteq> reachable st'" using closed_covers_closure[OF st'(2,4)] .
  then show ?thesis using a st'(1,3) by auto
qed

end
